theory Spec2Isabelle
  imports Main "HOL-Library.Word" "HOL-Library.AList"
begin

section \<open>JavaScript values\<close>

text \<open>
  A JavaScript string is a sequence of UTF-16 code units; \<open>substring\<close>, the regular
  expression engine and \<open>encodeURIComponent\<close> all work on code units. Program
  literals are written \<open>js ''...''\<close>.
\<close>

type_synonym jschar = "16 word"
type_synonym jsstring = "jschar list"

definition js :: "string \<Rightarrow> jsstring" where
  "js s = map of_char s"

text \<open>
  The values that flow through the two workflows. A number is only ever passed on,
  tested for truthiness or interpolated into a template, so it is represented by its
  canonical \<open>Number::toString\<close> rendering (\<open>0\<close> and \<open>NaN\<close> are the falsy ones).
  An object is its list of properties in insertion order.
\<close>

datatype jsval =
    JUndefined
  | JNull
  | JBool bool
  | JNum jsstring
  | JStr jsstring
  | JArr "jsval list"
  | JObj "(jsstring \<times> jsval) list"

type_synonym fields = "(jsstring \<times> jsval) list"

fun truthy :: "jsval \<Rightarrow> bool" where
  "truthy JUndefined = False"
| "truthy JNull = False"
| "truthy (JBool b) = b"
| "truthy (JNum n) = (n \<noteq> js ''0'' \<and> n \<noteq> js ''NaN'')"
| "truthy (JStr s) = (s \<noteq> [])"
| "truthy (JArr xs) = True"
| "truthy (JObj ps) = True"

text \<open>\<open>a || b\<close>\<close>

definition js_or :: "jsval \<Rightarrow> jsval \<Rightarrow> jsval" where
  "js_or a b = (if truthy a then a else b)"

text \<open>\<open>v == null\<close> (also \<open>v == undefined\<close>): true of \<open>null\<close> and \<open>undefined\<close> only.\<close>

definition is_nullish :: "jsval \<Rightarrow> bool" where
  "is_nullish v = (v = JUndefined \<or> v = JNull)"

fun join_comma :: "jsstring list \<Rightarrow> jsstring" where
  "join_comma [] = []"
| "join_comma [s] = s"
| "join_comma (s # t # ss) = s @ js '','' @ join_comma (t # ss)"

text \<open>\<open>`${v}`\<close>: the \<open>ToString\<close> conversion of a template literal.\<close>

fun to_string :: "jsval \<Rightarrow> jsstring" where
  "to_string JUndefined = js ''undefined''"
| "to_string JNull = js ''null''"
| "to_string (JBool b) = (if b then js ''true'' else js ''false'')"
| "to_string (JNum n) = n"
| "to_string (JStr s) = s"
| "to_string (JArr xs) =
     join_comma (map (\<lambda>x. if x = JUndefined \<or> x = JNull then [] else to_string x) xs)"
| "to_string (JObj ps) = js ''[object Object]''"

text \<open>
  \<open>s.substring(a, b)\<close> for non-negative integer arguments: the arguments are swapped
  when \<open>a > b\<close> and clamped to the length of \<open>s\<close>.
\<close>

definition substring :: "jsstring \<Rightarrow> nat \<Rightarrow> nat \<Rightarrow> jsstring" where
  "substring s a b = take (max a b - min a b) (drop (min a b) s)"

text \<open>
  What a \<open>throw\<close> or a rejected promise carries: an \<open>Error\<close> object with its name and
  message, or a rejection value of a library, given by its string conversion.
\<close>

datatype jserr =
    ErrObj jsstring jsstring
  | Rejected jsstring

text \<open>\<open>`${err}`\<close>, that is \<open>Error.prototype.toString\<close> for an \<open>Error\<close> object.\<close>

fun err_string :: "jserr \<Rightarrow> jsstring" where
  "err_string (ErrObj name msg) =
     (if msg = [] then name else if name = [] then msg else name @ js '': '' @ msg)"
| "err_string (Rejected s) = s"

text \<open>\<open>new Error(msg)\<close>\<close>

definition new_Error :: "jsstring \<Rightarrow> jserr" where
  "new_Error msg = ErrObj (js ''Error'') msg"

text \<open>
  The engine's \<open>TypeError\<close> for a method call on a value that has no such method
  (\<open>undefined.substring(...)\<close>, \<open>null.match(...)\<close>). The message text is the engine's;
  only the method name is recorded.
\<close>

definition type_error :: "string \<Rightarrow> jserr" where
  "type_error method = ErrObj (js ''TypeError'') (js method)"

section \<open>Record-store rows\<close>

text \<open>An Airtable record: \<open>record.getId()\<close> and the cell values read by \<open>record.get(name)\<close>.\<close>

record row =
  rid :: jsstring
  rfields :: fields

text \<open>Property lookup \<open>o[k]\<close>: \<open>undefined\<close> when the object has no such property.\<close>

definition obj_get :: "fields \<Rightarrow> jsstring \<Rightarrow> jsval" where
  "obj_get ps k = (case map_of ps k of None \<Rightarrow> JUndefined | Some v \<Rightarrow> v)"

text \<open>
  An object literal \<open>{k1: v1, ..., kn: vn}\<close>: the properties are set from left to right.
  Setting a property (\<open>AList.update\<close>) leaves an existing one in its place and appends a
  new one.
\<close>

definition obj_literal :: "(jsstring \<times> jsval) list \<Rightarrow> fields" where
  "obj_literal kvs = foldl (\<lambda>ps (k, v). AList.update k v ps) [] kvs"

definition get :: "row \<Rightarrow> jsstring \<Rightarrow> jsval" where
  "get r name = obj_get (rfields r) name"

section \<open>Bill creation: the invoice id\<close>

text \<open>
  \<^verbatim>\<open>
  const requester = newCheckRequest.get('Requester Name');
  const invoiceId =
      newCheckRequest.get('Vendor Invoice ID') ||
          `${requester.substring(0, 15)}` +
              ` - ${newCheckRequest.getId().substring(3, 6)}`;
  \<close>
  The right operand is evaluated only when the vendor's invoice id is falsy; there,
  a requester that is not a string has no \<open>substring\<close> method.
\<close>

definition invoiceId :: "row \<Rightarrow> jserr + jsval" where
  "invoiceId newCheckRequest =
     (let requester = get newCheckRequest (js ''Requester Name'');
          vendorInvoiceId = get newCheckRequest (js ''Vendor Invoice ID'')
      in if truthy vendorInvoiceId then Inr vendorInvoiceId
         else (case requester of
                 JStr r \<Rightarrow>
                   Inr (JStr (to_string (JStr (substring r 0 15)) @ js '' - '' @
                              to_string (JStr (substring (rid newCheckRequest) 3 6))))
               | _ \<Rightarrow> Inl (type_error ''substring'')))"


section \<open>Regular expressions\<close>

text \<open>
  The two patterns of the reconciliation run are sequences of literal text and greedy
  capture groups \<open>(.+)\<close>. \<open>.\<close> matches any code unit but a line terminator. The
  matcher backtracks as the ECMAScript one does: a group first takes the longest run and
  gives code units back one at a time; \<open>String.prototype.match\<close> tries the start
  positions from left to right and returns the captures of the first match.
\<close>

datatype tok = Lit jsstring | Cap

definition line_terminator :: "jschar \<Rightarrow> bool" where
  "line_terminator c = (c = 0x0A \<or> c = 0x0D \<or> c = 0x2028 \<or> c = 0x2029)"

fun first_some :: "('a \<Rightarrow> 'b option) \<Rightarrow> 'a list \<Rightarrow> 'b option" where
  "first_some f [] = None"
| "first_some f (x # xs) = (case f x of Some r \<Rightarrow> Some r | None \<Rightarrow> first_some f xs)"

primrec match_here :: "tok list \<Rightarrow> jsstring \<Rightarrow> jsstring list option" where
  "match_here [] s = Some []"
| "match_here (t # ts) s =
     (case t of
        Lit l \<Rightarrow>
          (if take (length l) s = l then match_here ts (drop (length l) s) else None)
      | Cap \<Rightarrow>
          first_some (\<lambda>k. map_option (\<lambda>caps. take k s # caps) (match_here ts (drop k s)))
            (rev [1..<Suc (length (takeWhile (\<lambda>c. \<not> line_terminator c) s))]))"

definition regex_match :: "tok list \<Rightarrow> jsstring \<Rightarrow> jsstring list option" where
  "regex_match re s = first_some (\<lambda>i. match_here re (drop i s)) [0..<Suc (length s)]"

section \<open>Utilities and the ledger\<close>

text \<open>
  \<open>PRIMARY_ORG\<close> and \<open>getYyyyMmDd\<close> are imported from the utilities module; the run only
  interpolates the one and applies the other, so both are parameters.
\<close>

record utils =
  PRIMARY_ORG :: jsstring
  getYyyyMmDd :: "jsval \<Rightarrow> jsval"

text \<open>The ledger's entities, as \<open>listActive\<close> returns them.\<close>

record entity =
  entity_id :: jsstring
  props :: fields

record item =
  item_id :: jsstring
  description :: jsval
  createdTime :: jsval
  chartOfAccountId :: jsval
  amount :: jsval
  customerId :: jsval

record bill =
  bill_id :: jsstring
  bill_description :: jsval
  vendorId :: jsval
  invoiceDate :: jsval
  invoiceNumber :: jsval
  approvalStatus :: jsval
  paymentStatus :: jsval
  billLineItems :: "item list"

text \<open>
  The ledger client, by the answers it gives during one run: \<open>primaryOrgLogin\<close> followed
  by \<open>getSessionId\<close> (the session id, on success), \<open>listActive\<close> for the reference
  entities and for the bills, and the \<open>GetDocumentPages\<close> data call
  (\<open>pages.documentPages.numPages\<close>, by bill id). A failed call rejects.
\<close>

record api =
  primaryOrgLogin :: "jserr + jsstring"
  listActive :: "jsstring \<Rightarrow> jserr + entity list"
  listActiveBill :: "jserr + bill list"
  getDocumentPages :: "jsstring \<Rightarrow> jserr + nat"

text \<open>
  A \<open>Map\<close> with string keys, in insertion order. \<open>set\<close> is \<open>AList.update\<close>. \<open>get\<close> and
  \<open>delete\<close> may be handed any value; only a string finds a string key.
\<close>

type_synonym 'v jsmap = "(jsstring \<times> 'v) list"

definition map_get :: "'v jsmap \<Rightarrow> jsval \<Rightarrow> 'v option" where
  "map_get m k = (case k of JStr s \<Rightarrow> map_of m s | _ \<Rightarrow> None)"

definition map_delete :: "'v jsmap \<Rightarrow> jsval \<Rightarrow> 'v jsmap" where
  "map_delete m k = (case k of JStr s \<Rightarrow> AList.delete s m | _ \<Rightarrow> m)"

definition approvalStatuses :: "jsval jsmap" where
  "approvalStatuses =
     [(js ''0'', JStr (js ''Unassigned'')),
      (js ''1'', JStr (js ''Assigned'')),
      (js ''4'', JStr (js ''Approving'')),
      (js ''3'', JStr (js ''Approved'')),
      (js ''5'', JStr (js ''Denied''))]"

definition paymentStatuses :: "jsval jsmap" where
  "paymentStatuses =
     [(js ''1'', JStr (js ''Open'')),
      (js ''4'', JStr (js ''Scheduled'')),
      (js ''0'', JStr (js ''Paid In Full'')),
      (js ''2'', JStr (js ''Partial Payment''))]"

text \<open>\<open>map.get(k)\<close> as a value: \<open>undefined\<close> when the key is absent.\<close>

definition map_get_val :: "jsval jsmap \<Rightarrow> jsval \<Rightarrow> jsval" where
  "map_get_val m k = (case map_get m k of None \<Rightarrow> JUndefined | Some v \<Rightarrow> v)"

definition getEntityData ::
  "api \<Rightarrow> jsstring \<Rightarrow> (entity \<Rightarrow> 'v) \<Rightarrow> jserr + 'v jsmap" where
  "getEntityData billComApi ent dataFunc =
     (case listActive billComApi ent of
        Inl err \<Rightarrow> Inl err
      | Inr entities \<Rightarrow>
          Inr (foldl (\<lambda>data e. AList.update (entity_id e) (dataFunc e) data) [] entities))"

definition getNames :: "api \<Rightarrow> jsstring \<Rightarrow> jserr + jsval jsmap" where
  "getNames billComApi ent = getEntityData billComApi ent (\<lambda>e. obj_get (props e) (js ''name''))"

definition billComIdFieldName :: "utils \<Rightarrow> jsstring \<Rightarrow> jsstring" where
  "billComIdFieldName u ent = PRIMARY_ORG u @ js '' Bill.com '' @ ent @ js '' ID''"

definition merchantRegex :: "tok list" where
  "merchantRegex =
     [Cap, Lit (js [CHR 0x0A]), Cap, Lit (js [CHR 0x0A]), Cap, Lit (js [CHR 0x0A]),
      Cap, Lit (js '' | ''), Cap, Lit (js '' | ''), Cap, Lit (js [CHR 0x0A]),
      Cap]"

definition merchantGroupNames :: "jsstring list" where
  "merchantGroupNames =
     [js ''date'', js ''name'', js ''address'', js ''city'', js ''state'', js ''zip'',
      js ''description'']"

definition submitterRegex :: "tok list" where
  "submitterRegex = [Lit (js ''Submitted by ''), Cap, Lit (js '' ('')]"

text \<open>The decimal rendering of a loop counter.\<close>

fun dec :: "nat \<Rightarrow> jsstring" where
  "dec n = (if n < 10 then [of_nat (48 + n)] else dec (n div 10) @ [of_nat (48 + n mod 10)])"

declare dec.simps [simp del]

definition vendorData :: "entity \<Rightarrow> fields" where
  "vendorData v =
     obj_literal
       [(js ''name'', obj_get (props v) (js ''name'')),
        (js ''address'', obj_get (props v) (js ''address1'')),
        (js ''city'', obj_get (props v) (js ''addressCity'')),
        (js ''state'', obj_get (props v) (js ''addressState'')),
        (js ''zip'', obj_get (props v) (js ''addressZip''))]"

section \<open>The record store\<close>

text \<open>An element of the array given to \<open>update\<close>: \<open>{id: ..., fields: ...}\<close>.\<close>

record upd =
  uid :: jsstring
  ufields :: fields

text \<open>The calls of the Airtable library, with their table and their argument.\<close>

datatype request =
    Select jsstring jsstring
  | Update jsstring "upd list"
  | Create jsstring "fields list"
  | Find jsstring jsstring

text \<open>
  The Airtable service behind the client: the rows of every table, the rows a named view
  shows (the empty view name shows the whole table), the id the service gives to a new
  row, its failures, and the requests made to it so far, in the order in which it got
  them: the request that comes after \<open>n\<close> others is rejected with \<open>outage n\<close> when that is
  not \<open>None\<close>. The client's callbacks run in states that extend this record with the
  variables they assign.
\<close>

record base =
  tables :: "jsstring \<Rightarrow> row list"
  views :: "jsstring \<Rightarrow> jsstring \<Rightarrow> row \<Rightarrow> bool"
  fresh_id :: "row list \<Rightarrow> jsstring"
  outage :: "nat \<Rightarrow> jserr option"
  requests :: "request list"

definition airtable_request ::
  "request \<Rightarrow> 'x base_scheme \<Rightarrow> jserr option \<times> 'x base_scheme" where
  "airtable_request q b = (outage b (length (requests b)), b\<lparr>requests := requests b @ [q]\<rparr>)"

definition in_view :: "'x base_scheme \<Rightarrow> jsstring \<Rightarrow> jsstring \<Rightarrow> row \<Rightarrow> bool" where
  "in_view b table view r = (view = [] \<or> views b table view r)"

text \<open>\<open>base(table).select({view: view}).all()\<close>\<close>

definition airtable_select_all ::
  "jsstring \<Rightarrow> jsstring \<Rightarrow> 'x base_scheme \<Rightarrow> (jserr + row list) \<times> 'x base_scheme" where
  "airtable_select_all table view b =
     (case airtable_request (Select table view) b of
        (Some err, b') \<Rightarrow> (Inl err, b')
      | (None, b') \<Rightarrow> (Inr (filter (in_view b' table view) (tables b' table)), b'))"

text \<open>
  The fields that reach the service: the library sends them as JSON text, which has no
  \<open>undefined\<close>, so a property whose value is \<open>undefined\<close> is left out of the request.
\<close>

definition sent :: "fields \<Rightarrow> fields" where
  "sent fs = filter (\<lambda>(k, v). v \<noteq> JUndefined) fs"

text \<open>
  \<open>base(table).update(updates)\<close>: the fields sent for a row overwrite those of the row
  with that id; the other fields of the row stay.
\<close>

definition apply_upd :: "upd \<Rightarrow> row \<Rightarrow> row" where
  "apply_upd u r =
     (if rid r = uid u then r\<lparr>rfields := AList.merge (rfields r) (sent (ufields u))\<rparr> else r)"

definition upd_rows :: "upd list \<Rightarrow> row list \<Rightarrow> row list" where
  "upd_rows us rs = foldl (\<lambda>rs u. map (apply_upd u) rs) rs us"

definition airtable_update ::
  "jsstring \<Rightarrow> upd list \<Rightarrow> 'x base_scheme \<Rightarrow> (jserr + unit) \<times> 'x base_scheme" where
  "airtable_update table us b =
     (case airtable_request (Update table us) b of
        (Some err, b') \<Rightarrow> (Inl err, b')
      | (None, b') \<Rightarrow>
          (Inr (),
           b'\<lparr>tables := (tables b')
                 (table := upd_rows us (tables b' table))\<rparr>))"

text \<open>
  \<open>base(table).create(creates)\<close>: one new row for each field set, in order, with the
  fields sent.
\<close>

definition append_rows :: "(row list \<Rightarrow> jsstring) \<Rightarrow> fields list \<Rightarrow> row list \<Rightarrow> row list" where
  "append_rows fresh cs rs =
     foldl (\<lambda>rs f. rs @ [\<lparr>rid = fresh rs, rfields = sent f\<rparr>]) rs cs"

definition airtable_create ::
  "jsstring \<Rightarrow> fields list \<Rightarrow> 'x base_scheme \<Rightarrow> (jserr + unit) \<times> 'x base_scheme" where
  "airtable_create table cs b =
     (case airtable_request (Create table cs) b of
        (Some err, b') \<Rightarrow> (Inl err, b')
      | (None, b') \<Rightarrow>
          (Inr (),
           b'\<lparr>tables := (tables b')
                 (table := append_rows (fresh_id b') cs (tables b' table))\<rparr>))"

text \<open>
  \<open>base(table).find(id)\<close>: rejected when the table has no such row, with the library's
  error for the 404 answer of the service.
\<close>

definition not_found :: jserr where
  "not_found =
     Rejected (js ''Could not find what you are looking for(NOT_FOUND)[Http code 404]'')"

definition airtable_find ::
  "jsstring \<Rightarrow> jsstring \<Rightarrow> 'x base_scheme \<Rightarrow> (jserr + row) \<times> 'x base_scheme" where
  "airtable_find table i b =
     (case airtable_request (Find table i) b of
        (Some err, b') \<Rightarrow> (Inl err, b')
      | (None, b') \<Rightarrow>
          (case find (\<lambda>r. rid r = i) (tables b' table) of
             None \<Rightarrow> (Inl not_found, b')
           | Some r \<Rightarrow> (Inr r, b')))"

section \<open>The record-store client\<close>

text \<open>
  \<^verbatim>\<open>
  function catchError(promise, querying, table) {
    return promise.catch(
        (err) => {
          throw new Error(
              `Error ${querying} records in Airtable Table ${table}: ${err}`);
        });
  }
  \<close>
\<close>

definition catchError :: "jserr + 'a \<Rightarrow> jsstring \<Rightarrow> jsstring \<Rightarrow> jserr + 'a" where
  "catchError promise querying table =
     (case promise of
        Inl err \<Rightarrow>
          Inl (new_Error (js ''Error '' @ querying @ js '' records in Airtable Table '' @
                          table @ js '': '' @ err_string err))
      | Inr v \<Rightarrow> Inr v)"

function chunks :: "nat \<Rightarrow> 'a list \<Rightarrow> 'a list list" where
  "chunks n xs = (if n = 0 \<or> xs = [] then [] else take n xs # chunks n (drop n xs))"
  by pat_completeness auto
termination
  by (relation "measure (\<lambda>(n, xs). length xs)") auto

declare chunks.simps [simp del]

text \<open>Calls awaited one after the other; the first rejection ends the sequence.\<close>

fun await_each ::
  "('a \<Rightarrow> 'w \<Rightarrow> (jserr + 'r) \<times> 'w) \<Rightarrow> 'a list \<Rightarrow> 'w \<Rightarrow> (jserr + 'r list) \<times> 'w" where
  "await_each func [] w = (Inr [], w)"
| "await_each func (x # xs) w =
     (case func x w of
        (Inl err, w') \<Rightarrow> (Inl err, w')
      | (Inr r, w') \<Rightarrow>
          (case await_each func xs w' of
             (Inl err, w'') \<Rightarrow> (Inl err, w'')
           | (Inr rs, w'') \<Rightarrow> (Inr (r # rs), w'')))"

text \<open>
  Modelled from the spec: \<open>batchAsync\<close> of the utilities module, which is not among the
  sources. Writes are chunked into batches of a fixed size, and each batch is awaited in
  sequence.
\<close>

definition batchAsync ::
  "('a list \<Rightarrow> 'w \<Rightarrow> (jserr + 'r) \<times> 'w) \<Rightarrow> 'a list \<Rightarrow> nat \<Rightarrow> 'w \<Rightarrow> (jserr + 'r list) \<times> 'w" where
  "batchAsync func array n w = await_each func (chunks n array) w"

definition batch ::
  "('a list \<Rightarrow> 'w \<Rightarrow> (jserr + 'r) \<times> 'w) \<Rightarrow> 'a list \<Rightarrow> 'w \<Rightarrow> (jserr + 'r list) \<times> 'w" where
  "batch func array w = batchAsync func array 10 w"

section \<open>Promises\<close>

text \<open>
  A promise is settled, with a value or a rejection, or it is pending: then the work it
  stands for goes on, one segment at a time. A segment is what runs between two points
  where the code waits (an \<open>await\<close>, a \<open>then\<close>): it acts on the shared state and gives the
  promise as it is afterwards. Segments of different pending promises run in the order in
  which their requests are answered, which the program does not choose.
\<close>

datatype ('s, 'r) promise =
    Settled "jserr + 'r"
  | Pending "'s \<Rightarrow> ('s, 'r) promise \<times> 's"

text \<open>\<open>await p\<close> when nothing else is running: the segments of \<open>p\<close> run one after another.\<close>

primrec settle :: "('s, 'r) promise \<Rightarrow> 's \<Rightarrow> (jserr + 'r) \<times> 's" where
  "settle (Settled r) s = (r, s)"
| "settle (Pending k) s = (case map_prod settle id (k s) of (f, s') \<Rightarrow> f s')"

text \<open>\<open>const v = await p; ... f(v)\<close>: a rejection of \<open>p\<close> is the rejection of the whole.\<close>

primrec bind_p ::
  "('s, 'a) promise \<Rightarrow> ('a \<Rightarrow> ('s, 'b) promise) \<Rightarrow> ('s, 'b) promise" where
  "bind_p (Settled r) f = (case r of Inl err \<Rightarrow> Settled (Inl err) | Inr v \<Rightarrow> f v)"
| "bind_p (Pending k) f = Pending (\<lambda>s. map_prod (\<lambda>p. bind_p p f) id (k s))"

text \<open>An operation that is one request to a service, awaited.\<close>

definition one_request :: "('s \<Rightarrow> (jserr + 'r) \<times> 's) \<Rightarrow> ('s, 'r) promise" where
  "one_request f = Pending (\<lambda>s. case f s of (r, s') \<Rightarrow> (Settled r, s'))"

text \<open>
  \<open>records.map(func)\<close>: the calls are made in the order of the records. A call of a
  synchronous function runs it to its end; when it throws, \<open>map\<close> ends there with the
  error, and the promises given so far stay. A call of an \<open>async\<close> function gives its
  promise.
\<close>

fun map_calls ::
  "('a \<Rightarrow> 's \<Rightarrow> (jserr + ('s, 'r) promise) \<times> 's) \<Rightarrow> 'a list \<Rightarrow> 's \<Rightarrow>
     (jserr option \<times> ('s, 'r) promise list) \<times> 's" where
  "map_calls func [] s = ((None, []), s)"
| "map_calls func (x # xs) s =
     (case func x s of
        (Inl err, s1) \<Rightarrow> ((Some err, []), s1)
      | (Inr p, s1) \<Rightarrow>
          (case map_calls func xs s1 of
             ((thrown, ps), s2) \<Rightarrow> ((thrown, p # ps), s2)))"

text \<open>A synchronous callback with its return value, and an \<open>async\<close> callback with its body.\<close>

definition sync_fn ::
  "('a \<Rightarrow> 's \<Rightarrow> (jserr + 'r) \<times> 's) \<Rightarrow> 'a \<Rightarrow> 's \<Rightarrow> (jserr + ('s, 'r) promise) \<times> 's" where
  "sync_fn f x s =
     (case f x s of
        (Inl err, s1) \<Rightarrow> (Inl err, s1)
      | (Inr v, s1) \<Rightarrow> (Inr (Settled (Inr v)), s1))"

definition async_fn ::
  "('a \<Rightarrow> ('s, 'r) promise) \<Rightarrow> 'a \<Rightarrow> 's \<Rightarrow> (jserr + ('s, 'r) promise) \<times> 's" where
  "async_fn body x s = (Inr (body x), s)"

fun is_pending :: "('s, 'r) promise \<Rightarrow> bool" where
  "is_pending (Settled r) = False"
| "is_pending (Pending k) = True"

definition pending_idx :: "('s, 'r) promise list \<Rightarrow> nat list" where
  "pending_idx ps = filter (\<lambda>i. is_pending (ps ! i)) [0..<length ps]"

fun rejection_of :: "('s, 'r) promise \<Rightarrow> jserr option" where
  "rejection_of (Settled (Inl err)) = Some err"
| "rejection_of (Settled (Inr v)) = None"
| "rejection_of (Pending k) = None"

text \<open>The first rejection stays the first.\<close>

definition or_else :: "jserr option \<Rightarrow> jserr option \<Rightarrow> jserr option" where
  "or_else first later = (case first of Some err \<Rightarrow> Some err | None \<Rightarrow> later)"

text \<open>The next segment of the promise at position \<open>i\<close>.\<close>

definition step_at ::
  "nat \<Rightarrow> ('s, 'r) promise list \<Rightarrow> 's \<Rightarrow> ('s, 'r) promise list \<times> 's" where
  "step_at i ps s =
     (case ps ! i of
        Settled r \<Rightarrow> (ps, s)
      | Pending k \<Rightarrow> (case k s of (p, s1) \<Rightarrow> (ps[i := p], s1)))"

text \<open>
  The promises run as the schedule \<open>sch\<close> says: each of its numbers picks one of the
  promises that are pending, which runs its next segment. \<open>first\<close> is the rejection that
  came first in time, if there has been one.
\<close>

fun interleave ::
  "nat list \<Rightarrow> ('s, 'r) promise list \<Rightarrow> jserr option \<Rightarrow> 's \<Rightarrow>
     (('s, 'r) promise list \<times> jserr option) \<times> 's" where
  "interleave [] ps first s = ((ps, first), s)"
| "interleave (n # sch) ps first s =
     (case pending_idx ps of
        [] \<Rightarrow> ((ps, first), s)
      | j # rest \<Rightarrow>
          (let i = (j # rest) ! (n mod length (j # rest))
           in case step_at i ps s of
                (ps1, s1) \<Rightarrow> interleave sch ps1 (or_else first (rejection_of (ps1 ! i))) s1))"

text \<open>The promises that are still pending run to their ends, in the order of the list.\<close>

fun settle_each ::
  "('s, 'r) promise list \<Rightarrow> jserr option \<Rightarrow> 's \<Rightarrow> ((jserr + 'r) list \<times> jserr option) \<times> 's" where
  "settle_each [] first s = (([], first), s)"
| "settle_each (p # ps) first s =
     (case settle p s of
        (r, s1) \<Rightarrow>
          (case settle_each ps
                  (if is_pending p
                   then or_else first (case r of Inl err \<Rightarrow> Some err | Inr v \<Rightarrow> None)
                   else first) s1 of
             ((rs, first1), s2) \<Rightarrow> ((r # rs, first1), s2)))"

text \<open>The first of the promises that is rejected already, in the order of the list.\<close>

fun rejected_already :: "('s, 'r) promise list \<Rightarrow> jserr option" where
  "rejected_already [] = None"
| "rejected_already (p # ps) = or_else (rejection_of p) (rejected_already ps)"

fun values_of :: "(jserr + 'r) list \<Rightarrow> 'r list" where
  "values_of [] = []"
| "values_of (Inl err # rs) = values_of rs"
| "values_of (Inr v # rs) = v # values_of rs"

text \<open>
  \<open>Promise.all(ps)\<close>: rejected with the rejection that comes first in time, fulfilled
  with the values of all otherwise. Every interleaving of the segments is the run for
  some schedule; when the schedule ends before the promises do, the rest runs in the
  order of the list. A rejection of one promise does not stop the others: the state
  given is the one reached when all are settled.
\<close>

definition promise_all ::
  "('s, 'r) promise list \<Rightarrow> nat list \<Rightarrow> 's \<Rightarrow> (jserr + 'r list) \<times> 's" where
  "promise_all ps sch s =
     (case interleave sch ps (rejected_already ps) s of
        ((ps1, first), s1) \<Rightarrow>
          (case settle_each ps1 first s1 of
             ((rs, first1), s2) \<Rightarrow>
               ((case first1 of Some err \<Rightarrow> Inl err | None \<Rightarrow> Inr (values_of rs)), s2)))"

section \<open>The operations of the client\<close>

text \<open>
  \<^verbatim>\<open>
  select(table, view, func) {
    return catchError(
        this.base_(table).select({view: view}).all().then(
            (records) => Promise.all(records.map(func))),
        'selecting', table);
  }
  \<close>
  \<open>sch\<close> is the schedule of the promises that the callback gives. When a call of the
  callback throws, the promise of \<open>select\<close> is rejected with that error, and the promises
  given before go on.
\<close>

definition select ::
  "jsstring \<Rightarrow> jsstring \<Rightarrow>
     (row \<Rightarrow> 'x base_scheme \<Rightarrow> (jserr + ('x base_scheme, 'r) promise) \<times> 'x base_scheme) \<Rightarrow>
     nat list \<Rightarrow> 'x base_scheme \<Rightarrow> (jserr + 'r list) \<times> 'x base_scheme" where
  "select table view func sch b =
     (case airtable_select_all table view b of
        (Inl err, b1) \<Rightarrow> (catchError (Inl err) (js ''selecting'') table, b1)
      | (Inr records, b1) \<Rightarrow>
          (case map_calls func records b1 of
             ((Some err, ps), b2) \<Rightarrow>
               (catchError (Inl err) (js ''selecting'') table, snd (promise_all ps sch b2))
           | ((None, ps), b2) \<Rightarrow>
               (case promise_all ps sch b2 of
                  (res, b3) \<Rightarrow> (catchError res (js ''selecting'') table, b3))))"

definition select2 ::
  "jsstring \<Rightarrow> jsstring \<Rightarrow> 'x base_scheme \<Rightarrow> (jserr + row list) \<times> 'x base_scheme" where
  "select2 table view b =
     (case airtable_select_all table view b of
        (res, b') \<Rightarrow> (catchError res (js ''selecting'') table, b'))"

definition update ::
  "jsstring \<Rightarrow> upd list \<Rightarrow> 'x base_scheme \<Rightarrow> (jserr + unit list) \<times> 'x base_scheme" where
  "update table updates b =
     (case batch (airtable_update table) updates b of
        (res, b') \<Rightarrow> (catchError res (js ''updating'') table, b'))"

text \<open>
  \<^verbatim>\<open>
  selectAndUpdate(table, view, fieldsFunc) {
    return this.select(
        table,
        view,
        async (record) => {
          const fields = await fieldsFunc(record);
          if (fields == null) return null;
          return this.update(table, [{id: record.getId(), fields: fields}]);
        });
  }
  \<close>
  The callback calls \<open>fieldsFunc\<close> at once: what \<open>fieldsFunc\<close> does before it first
  waits happens in the call, and when it throws there, the promise of the callback is
  rejected. \<open>write_back\<close> is the callback from the point where the fields are there
  (\<open>None\<close> for \<open>null\<close> and \<open>undefined\<close>); the update is one batch, so one request.
\<close>

definition write_back ::
  "jsstring \<Rightarrow> row \<Rightarrow> fields option \<Rightarrow> ('x base_scheme, unit list option) promise" where
  "write_back table record computed =
     (case computed of
        None \<Rightarrow> Settled (Inr None)
      | Some fs \<Rightarrow>
          one_request
            (\<lambda>b. case update table [\<lparr>uid = rid record, ufields = fs\<rparr>] b of
                   (Inl err, b1) \<Rightarrow> (Inl err, b1)
                 | (Inr res, b1) \<Rightarrow> (Inr (Some res), b1)))"

definition update_row ::
  "jsstring \<Rightarrow>
     (row \<Rightarrow> 'x base_scheme \<Rightarrow>
        (jserr + ('x base_scheme, fields option) promise) \<times> 'x base_scheme) \<Rightarrow>
     row \<Rightarrow> 'x base_scheme \<Rightarrow>
     (jserr + ('x base_scheme, unit list option) promise) \<times> 'x base_scheme" where
  "update_row table fieldsFunc record b =
     (case fieldsFunc record b of
        (Inl err, b1) \<Rightarrow> (Inr (Settled (Inl err)), b1)
      | (Inr p, b1) \<Rightarrow> (Inr (bind_p p (write_back table record)), b1))"

definition selectAndUpdate ::
  "jsstring \<Rightarrow> jsstring \<Rightarrow>
     (row \<Rightarrow> 'x base_scheme \<Rightarrow>
        (jserr + ('x base_scheme, fields option) promise) \<times> 'x base_scheme) \<Rightarrow>
     nat list \<Rightarrow> 'x base_scheme \<Rightarrow> (jserr + unit list option list) \<times> 'x base_scheme" where
  "selectAndUpdate table view fieldsFunc sch b =
     select table view (update_row table fieldsFunc) sch b"

definition create ::
  "jsstring \<Rightarrow> fields list \<Rightarrow> 'x base_scheme \<Rightarrow> (jserr + unit list) \<times> 'x base_scheme" where
  "create table creates b =
     (case batch (airtable_create table) creates b of
        (res, b') \<Rightarrow> (catchError res (js ''creating'') table, b'))"

definition find_rec ::
  "jsstring \<Rightarrow> jsstring \<Rightarrow> (row \<Rightarrow> 'x base_scheme \<Rightarrow> (jserr + 'r) \<times> 'x base_scheme) \<Rightarrow>
     'x base_scheme \<Rightarrow> (jserr + 'r) \<times> 'x base_scheme" where
  "find_rec table i func b =
     (case airtable_find table i b of
        (Inl err, b') \<Rightarrow> (catchError (Inl err) (js ''finding'') table, b')
      | (Inr record, b') \<Rightarrow>
          (case func record b' of
             (res, b'') \<Rightarrow> (catchError res (js ''finding'') table, b'')))"

section \<open>The reconciliation run\<close>

text \<open>The variables of the run that the \<open>select\<close> callback assigns.\<close>

record sync_state = base +
  updates :: "upd list"
  changes :: "fields jsmap"

definition BILL_REPORTING_TABLE :: jsstring where
  "BILL_REPORTING_TABLE = js ''Bill Reporting''"

definition primaryBillComId :: "utils \<Rightarrow> jsstring" where
  "primaryBillComId u = billComIdFieldName u (js ''Line Item'')"

text \<open>
  \<^verbatim>\<open>
  for (let i = 1; i <= pages.documentPages.numPages; ++i) {
    docs.push({
      url:
        `https://api.bill.com/is/BillImageServlet?entityId=${bill.id}` +
            `&sessionId=${sessionId}&pageNumber=${i}`
    });
  }
  \<close>
\<close>

definition docs_of :: "jsstring \<Rightarrow> jsstring \<Rightarrow> nat \<Rightarrow> jsval" where
  "docs_of sessionId billId numPages =
     JArr (map (\<lambda>i. JObj [(js ''url'',
                  JStr (js ''https://api.bill.com/is/BillImageServlet?entityId='' @ billId @
                        js ''&sessionId='' @ sessionId @ js ''&pageNumber='' @ dec i))])
             [1..<Suc numPages])"

text \<open>\<open>s.match(re)\<close> on a value: a value that is not a string has no such method.\<close>

definition js_match :: "jsval \<Rightarrow> tok list \<Rightarrow> jserr + jsstring list option" where
  "js_match v re = (case v of JStr s \<Rightarrow> Inr (regex_match re s) | _ \<Rightarrow> Inl (type_error ''match''))"

text \<open>\<open>(item.description.match(merchantRegex) || {}).groups || vendor\<close>\<close>

definition itemVendor_of :: "item \<Rightarrow> fields \<Rightarrow> jserr + fields" where
  "itemVendor_of it vendor =
     (case js_match (description it) merchantRegex of
        Inl err \<Rightarrow> Inl err
      | Inr None \<Rightarrow> Inr vendor
      | Inr (Some caps) \<Rightarrow> Inr (obj_literal (zip merchantGroupNames (map JStr caps))))"

text \<open>The field set that \<open>changes.set(item.id, {...})\<close> stores for one line item.\<close>

definition item_fields ::
  "utils \<Rightarrow> jsval jsmap \<Rightarrow> jsval jsmap \<Rightarrow> bill \<Rightarrow> jsval \<Rightarrow> jsstring list option \<Rightarrow>
     item \<Rightarrow> fields \<Rightarrow> fields" where
  "item_fields u chartOfAccounts customers b docs submitterMatch it itemVendor =
     obj_literal
       [(js ''Active'', JBool True),
        (primaryBillComId u, JStr (item_id it)),
        (js ''Submitted By'',
           (case submitterMatch of
              None \<Rightarrow> JNull
            | Some caps \<Rightarrow> (case caps of [] \<Rightarrow> JUndefined | c # _ \<Rightarrow> JStr c))),
        (js ''Creation Date'', getYyyyMmDd u (createdTime it)),
        (js ''Invoice Date'', invoiceDate b),
        (js ''Expense Date'', js_or (obj_get itemVendor (js ''date'')) (invoiceDate b)),
        (billComIdFieldName u (js ''Vendor''), vendorId b),
        (js ''Vendor Name'', obj_get itemVendor (js ''name'')),
        (js ''Vendor Address'', obj_get itemVendor (js ''address'')),
        (js ''Vendor City'', obj_get itemVendor (js ''city'')),
        (js ''Vendor State'', obj_get itemVendor (js ''state'')),
        (js ''Vendor Zip Code'', obj_get itemVendor (js ''zip'')),
        (js ''Description'', js_or (obj_get itemVendor (js ''description'')) (description it)),
        (billComIdFieldName u (js ''Chart of Account''), chartOfAccountId it),
        (js ''Chart of Account'', map_get_val chartOfAccounts (chartOfAccountId it)),
        (js ''Amount'', amount it),
        (billComIdFieldName u (js ''Customer''), customerId it),
        (js ''Customer'', map_get_val customers (customerId it)),
        (js ''Invoice ID'', invoiceNumber b),
        (js ''Supporting Documents'', docs),
        (js ''Approval Status'', map_get_val approvalStatuses (approvalStatus b)),
        (js ''Payment Status'', map_get_val paymentStatuses (paymentStatus b)),
        (billComIdFieldName u (js ''Bill''), JStr (bill_id b))]"

text \<open>The entry of one line item: its vendor fields are chosen, then the field set is built.\<close>

definition item_entry ::
  "utils \<Rightarrow> jsval jsmap \<Rightarrow> jsval jsmap \<Rightarrow> bill \<Rightarrow> jsval \<Rightarrow> jsstring list option \<Rightarrow>
     fields \<Rightarrow> item \<Rightarrow> jserr + fields" where
  "item_entry u coa cust b docs sm vendor it =
     (case itemVendor_of it vendor of
        Inl err \<Rightarrow> Inl err
      | Inr itemVendor \<Rightarrow> Inr (item_fields u coa cust b docs sm it itemVendor))"

text \<open>The inner loop \<open>for (const item of bill.billLineItems)\<close>.\<close>

fun items_loop ::
  "utils \<Rightarrow> jsval jsmap \<Rightarrow> jsval jsmap \<Rightarrow> bill \<Rightarrow> jsval \<Rightarrow> jsstring list option \<Rightarrow>
     fields \<Rightarrow> item list \<Rightarrow> fields jsmap \<Rightarrow> jserr + fields jsmap" where
  "items_loop u coa cust b docs sm vendor [] chg = Inr chg"
| "items_loop u coa cust b docs sm vendor (it # its) chg =
     (case item_entry u coa cust b docs sm vendor it of
        Inl err \<Rightarrow> Inl err
      | Inr fs \<Rightarrow>
          items_loop u coa cust b docs sm vendor its (AList.update (item_id it) fs chg))"

text \<open>The outer loop \<open>for (const bill of bills)\<close>.\<close>

fun bills_loop ::
  "utils \<Rightarrow> api \<Rightarrow> jsstring \<Rightarrow> fields jsmap \<Rightarrow> jsval jsmap \<Rightarrow> jsval jsmap \<Rightarrow>
     bill list \<Rightarrow> fields jsmap \<Rightarrow> jserr + fields jsmap" where
  "bills_loop u billComApi sessionId vendors coa cust [] chg = Inr chg"
| "bills_loop u billComApi sessionId vendors coa cust (b # bs) chg =
     (case getDocumentPages billComApi (bill_id b) of
        Inl err \<Rightarrow> Inl err
      | Inr numPages \<Rightarrow>
          (case js_match (js_or (bill_description b) (JStr [])) submitterRegex of
             Inl err \<Rightarrow> Inl err
           | Inr submitterMatch \<Rightarrow>
               (case items_loop u coa cust b (docs_of sessionId (bill_id b) numPages)
                       submitterMatch
                       (case map_get vendors (vendorId b) of None \<Rightarrow> [] | Some v \<Rightarrow> v)
                       (billLineItems b) chg of
                  Inl err \<Rightarrow> Inl err
                | Inr chg' \<Rightarrow> bills_loop u billComApi sessionId vendors coa cust bs chg')))"

text \<open>
  Everything \<open>main\<close> does before it touches the record store: the login, the reference
  data, the bills, and the Changes Map.
\<close>

definition build_changes :: "utils \<Rightarrow> api \<Rightarrow> jserr + fields jsmap" where
  "build_changes u billComApi =
     (case primaryOrgLogin billComApi of
        Inl err \<Rightarrow> Inl err
      | Inr sessionId \<Rightarrow>
     (case getEntityData billComApi (js ''Vendor'') vendorData of
        Inl err \<Rightarrow> Inl err
      | Inr vendors \<Rightarrow>
     (case getNames billComApi (js ''ChartOfAccount'') of
        Inl err \<Rightarrow> Inl err
      | Inr chartOfAccounts \<Rightarrow>
     (case getNames billComApi (js ''Customer'') of
        Inl err \<Rightarrow> Inl err
      | Inr customers \<Rightarrow>
     (case listActiveBill billComApi of
        Inl err \<Rightarrow> Inl err
      | Inr bills \<Rightarrow>
          bills_loop u billComApi sessionId vendors chartOfAccounts customers bills [])))))"

text \<open>
  \<^verbatim>\<open>
  (record) => {
    const id = record.get(primaryBillComId);
    updates.push({
      id: record.getId(), fields: changes.get(id) || {Active: false},
    });
    changes.delete(id);
  }
  \<close>
\<close>

definition stage_update :: "utils \<Rightarrow> row \<Rightarrow> sync_state \<Rightarrow> (jserr + unit) \<times> sync_state" where
  "stage_update u record s =
     (let i = get record (primaryBillComId u)
      in (Inr (),
          s\<lparr>updates := updates s @
                [\<lparr>uid = rid record,
                  ufields = (case map_get (changes s) i of
                               Some fs \<Rightarrow> fs
                             | None \<Rightarrow> [(js ''Active'', JBool False)])\<rparr>],
            changes := map_delete (changes s) i\<rparr>))"

text \<open>
  \<^verbatim>\<open>
  for (const [id, data] of changes) {
    data[primaryBillComId] = id;
    creates.push({fields: data});
  }
  \<close>
\<close>

definition creates_of :: "utils \<Rightarrow> fields jsmap \<Rightarrow> fields list" where
  "creates_of u chg = map (\<lambda>(i, data). AList.update (primaryBillComId u) (JStr i) data) chg"

text \<open>
  The \<open>select\<close> callback of the run is synchronous, so its calls leave no promise pending
  and there is nothing to schedule.
\<close>

definition main :: "utils \<Rightarrow> api \<Rightarrow> base \<Rightarrow> (jserr + unit) \<times> sync_state" where
  "main u billComApi billComIntegrationBase =
     (case build_changes u billComApi of
        Inl err \<Rightarrow> (Inl err, base.extend billComIntegrationBase \<lparr>updates = [], changes = []\<rparr>)
      | Inr chg \<Rightarrow>
     (case select BILL_REPORTING_TABLE [] (sync_fn (stage_update u)) []
             (base.extend billComIntegrationBase \<lparr>updates = [], changes = chg\<rparr>) of
        (Inl err, s1) \<Rightarrow> (Inl err, s1)
      | (Inr _, s1) \<Rightarrow>
     (case update BILL_REPORTING_TABLE (updates s1) s1 of
        (Inl err, s2) \<Rightarrow> (Inl err, s2)
      | (Inr _, s2) \<Rightarrow>
     (case create BILL_REPORTING_TABLE (creates_of u (changes s2)) s2 of
        (Inl err, s3) \<Rightarrow> (Inl err, s3)
      | (Inr _, s3) \<Rightarrow> (Inr (), s3)))))"

section \<open>Notions used to state the properties of a run\<close>

text \<open>The record store answers every request.\<close>

definition never_fails :: "'x base_scheme \<Rightarrow> bool" where
  "never_fails b = (\<forall>n. outage b n = None)"

text \<open>The ledger phase of the run succeeds, and the Changes Map it builds.\<close>

definition ledger_ok :: "utils \<Rightarrow> api \<Rightarrow> bool" where
  "ledger_ok u billComApi = (case build_changes u billComApi of Inl _ \<Rightarrow> False | Inr _ \<Rightarrow> True)"

definition the_changes :: "utils \<Rightarrow> api \<Rightarrow> fields jsmap" where
  "the_changes u billComApi = (case build_changes u billComApi of Inl _ \<Rightarrow> [] | Inr chg \<Rightarrow> chg)"

text \<open>
  What the ledger phase needs of a bill: the page count is answered, the description is
  falsy or a string, and the description of every line item is a string.
\<close>

definition is_str :: "jsval \<Rightarrow> bool" where
  "is_str v = (case v of JStr _ \<Rightarrow> True | _ \<Rightarrow> False)"

definition bill_ok :: "api \<Rightarrow> bill \<Rightarrow> bool" where
  "bill_ok billComApi b =
     ((case getDocumentPages billComApi (bill_id b) of Inl _ \<Rightarrow> False | Inr _ \<Rightarrow> True)
      \<and> (truthy (bill_description b) \<longrightarrow> is_str (bill_description b))
      \<and> list_all (\<lambda>it. is_str (description it)) (billLineItems b))"

text \<open>The line items of the active ledger fetch: those of the bills that \<open>listActive\<close> returns.\<close>

definition ledger_items :: "api \<Rightarrow> item list" where
  "ledger_items billComApi =
     (case listActiveBill billComApi of Inl _ \<Rightarrow> [] | Inr bills \<Rightarrow> concat (map billLineItems bills))"

text \<open>The key field of a mirror row.\<close>

definition rkey :: "utils \<Rightarrow> row \<Rightarrow> jsval" where
  "rkey u r = get r (primaryBillComId u)"

text \<open>
  The updates that streaming the rows \<open>rs\<close> stages from the Changes Map \<open>chg\<close>, and the
  entries of the map that are left; both are shown below to be what the \<open>select\<close>
  callback computes.
\<close>

fun staged :: "utils \<Rightarrow> fields jsmap \<Rightarrow> row list \<Rightarrow> upd list" where
  "staged u chg [] = []"
| "staged u chg (r # rs) =
     \<lparr>uid = rid r,
      ufields = (case map_get chg (rkey u r) of
                   Some fs \<Rightarrow> fs
                 | None \<Rightarrow> [(js ''Active'', JBool False)])\<rparr>
     # staged u (map_delete chg (rkey u r)) rs"

definition remaining :: "utils \<Rightarrow> fields jsmap \<Rightarrow> row list \<Rightarrow> fields jsmap" where
  "remaining u chg rs = foldl (\<lambda>c r. map_delete c (rkey u r)) chg rs"

text \<open>The \<open>update\<close> calls made on a table, among the requests to the record store.\<close>

fun updates_on :: "jsstring \<Rightarrow> request list \<Rightarrow> upd list list" where
  "updates_on table [] = []"
| "updates_on table (Update t us # qs) =
     (if t = table then us # updates_on table qs else updates_on table qs)"
| "updates_on table (q # qs) = updates_on table qs"

text \<open>
  A piece of work leaves a table alone: from the state \<open>s\<close> before it to the state \<open>s'\<close>
  after it, the rows of the table are the same, no \<open>update\<close> call was made on the table,
  and the record store fails as it would have.
\<close>

definition leaves :: "jsstring \<Rightarrow> 'x base_scheme \<Rightarrow> 'x base_scheme \<Rightarrow> bool" where
  "leaves table s s' =
     (outage s' = outage s \<and> tables s' table = tables s table
      \<and> updates_on table (requests s') = updates_on table (requests s))"

text \<open>
  What a promise may do: whatever the state in which a segment of it runs, the segment
  is in \<open>G\<close>, and an outcome with which the promise settles is in \<open>Q\<close>.
\<close>

inductive abides ::
  "('s \<Rightarrow> 's \<Rightarrow> bool) \<Rightarrow> (jserr + 'r \<Rightarrow> bool) \<Rightarrow> ('s, 'r) promise \<Rightarrow> bool"
  for G :: "'s \<Rightarrow> 's \<Rightarrow> bool" and Q :: "jserr + 'r \<Rightarrow> bool" where
  settled: "Q res \<Longrightarrow> abides G Q (Settled res)"
| pending:
    "(\<And>s. G s (snd (k s))) \<Longrightarrow> (\<And>s. abides G Q (fst (k s))) \<Longrightarrow> abides G Q (Pending k)"

text \<open>
  The state of \<open>selectAndUpdate\<close> while the callbacks for the records \<open>recs\<close> run, with
  \<open>rows0\<close> the rows of the table and \<open>reqs0\<close> the \<open>update\<close> calls on it when they started:
  \<open>W\<close> gives, by row id, the fields written back so far, and \<open>L\<close> lists the \<open>update\<close>
  calls made for them. The promise of a record without a write-back is the rest of the
  callback, behind a fields function that leaves the table alone; the promise of a
  record with a write-back is fulfilled.
\<close>

definition write_backs ::
  "jsstring \<Rightarrow> (row \<Rightarrow> jserr + fields option \<Rightarrow> bool) \<Rightarrow> row list \<Rightarrow> upd list list \<Rightarrow>
     row list \<Rightarrow> (jsstring \<Rightarrow> fields option) \<Rightarrow> upd list list \<Rightarrow>
     ('x base_scheme, unit list option) promise list \<Rightarrow> 'x base_scheme \<Rightarrow> bool" where
  "write_backs table Q rows0 reqs0 recs W L ps s =
     (never_fails s \<and> length ps = length recs
      \<and> (\<forall>k. k \<notin> rid ` set recs \<longrightarrow> W k = None)
      \<and> (\<forall>i < length recs.
            case W (rid (recs ! i)) of
              None \<Rightarrow>
                (\<exists>q. ps ! i = bind_p q (write_back table (recs ! i))
                    \<and> abides (leaves table) (Q (recs ! i)) q)
            | Some fs \<Rightarrow> ps ! i = Settled (Inr (Some [()])) \<and> Q (recs ! i) (Inr (Some fs)))
      \<and> tables s table =
          map (\<lambda>r. case W (rid r) of
                      None \<Rightarrow> r
                    | Some fs \<Rightarrow> r\<lparr>rfields := AList.merge (rfields r) (sent fs)\<rparr>) rows0
      \<and> updates_on table (requests s) = reqs0 @ L \<and> distinct L
      \<and> set L = {us. \<exists>r fs. r \<in> set recs \<and> W (rid r) = Some fs
                        \<and> us = [\<lparr>uid = rid r, ufields = fs\<rparr>]})"

text \<open>
  The merchant pattern in the words of the specification: date, name, address,
  \<open>city | state | zip\<close> and description on five lines, every part a non-empty text
  without line terminators.
\<close>

definition valid_group :: "jsstring \<Rightarrow> bool" where
  "valid_group c = (c \<noteq> [] \<and> list_all (\<lambda>x. \<not> line_terminator x) c)"

definition merchant_text ::
  "jsstring \<Rightarrow> jsstring \<Rightarrow> jsstring \<Rightarrow> jsstring \<Rightarrow> jsstring \<Rightarrow> jsstring \<Rightarrow> jsstring \<Rightarrow>
     jsstring" where
  "merchant_text d n a c st z t =
     d @ [0x0A] @ n @ [0x0A] @ a @ [0x0A] @ c @ js '' | '' @ st @ js '' | '' @ z @ [0x0A] @ t"

text \<open>A description matches when such a text occurs in it.\<close>

definition has_merchant_text :: "jsstring \<Rightarrow> bool" where
  "has_merchant_text s =
     (\<exists>pre d n a c st z t post.
        valid_group d \<and> valid_group n \<and> valid_group a \<and> valid_group c \<and> valid_group st
      \<and> valid_group z \<and> valid_group t \<and> s = pre @ merchant_text d n a c st z t @ post)"

text \<open>The text of a pattern with the captures \<open>caps\<close> put in for its groups.\<close>

fun fill :: "tok list \<Rightarrow> jsstring list \<Rightarrow> jsstring" where
  "fill [] caps = []"
| "fill (Lit l # ts) caps = l @ fill ts caps"
| "fill (Cap # ts) [] = []"
| "fill (Cap # ts) (c # caps) = c @ fill ts caps"

fun fits :: "tok list \<Rightarrow> jsstring list \<Rightarrow> bool" where
  "fits [] caps = (caps = [])"
| "fits (Lit l # ts) caps = fits ts caps"
| "fits (Cap # ts) [] = False"
| "fits (Cap # ts) (c # caps) = (valid_group c \<and> fits ts caps)"

section \<open>A sample ledger and mirror table\<close>

text \<open>
  One bill with two line items, the first with a merchant description; a mirror table
  with a row for the second line item, a row for a line item that is gone, and a second
  row for the second line item.
\<close>

definition sample_utils :: utils where
  "sample_utils = \<lparr>PRIMARY_ORG = js ''RS'', getYyyyMmDd = (\<lambda>v. v)\<rparr>"

definition sample_item1 :: item where
  "sample_item1 =
     \<lparr>item_id = js ''i1'',
      description = JStr (js ''d'' @ [0x0A] @ js ''n'' @ [0x0A] @ js ''a'' @ [0x0A] @
                          js ''c | s | z'' @ [0x0A] @ js ''t''),
      createdTime = JStr (js ''2022''), chartOfAccountId = JStr (js ''c1''),
      amount = JNum (js ''12.5''), customerId = JNull\<rparr>"

definition sample_item2 :: item where
  "sample_item2 =
     \<lparr>item_id = js ''i2'', description = JStr (js ''paper''),
      createdTime = JStr (js ''2022''), chartOfAccountId = JStr (js ''c1''),
      amount = JNum (js ''3''), customerId = JNull\<rparr>"

definition sample_bill :: bill where
  "sample_bill =
     \<lparr>bill_id = js ''b1'', bill_description = JStr (js ''Submitted by Ann (a@x.org).''),
      vendorId = JStr (js ''v1''), invoiceDate = JStr (js ''2022-02-01''),
      invoiceNumber = JStr (js ''INV''), approvalStatus = JStr (js ''3''),
      paymentStatus = JStr (js ''1''), billLineItems = [sample_item1, sample_item2]\<rparr>"

definition sample_api :: "jsstring \<Rightarrow> api" where
  "sample_api sid =
     \<lparr>primaryOrgLogin = Inr sid,
      listActive =
        (\<lambda>e. if e = js ''Vendor''
             then Inr [\<lparr>entity_id = js ''v1'',
                        props = [(js ''name'', JStr (js ''ACME'')),
                                 (js ''address1'', JStr (js ''9 Road''))]\<rparr>]
             else if e = js ''ChartOfAccount''
             then Inr [\<lparr>entity_id = js ''c1'', props = [(js ''name'', JStr (js ''Supplies''))]\<rparr>]
             else Inr []),
      listActiveBill = Inr [sample_bill],
      getDocumentPages = (\<lambda>_. Inr 1)\<rparr>"

definition sample_base :: base where
  "sample_base =
     \<lparr>tables =
        (\<lambda>t. if t = js ''Bill Reporting''
             then [\<lparr>rid = js ''recA'',
                    rfields = [(js ''RS Bill.com Line Item ID'', JStr (js ''i2'')),
                               (js ''Note'', JStr (js ''keep''))]\<rparr>,
                   \<lparr>rid = js ''recB'',
                    rfields = [(js ''RS Bill.com Line Item ID'', JStr (js ''gone'')),
                               (js ''Amount'', JNum (js ''3''))]\<rparr>,
                   \<lparr>rid = js ''recC'',
                    rfields = [(js ''RS Bill.com Line Item ID'', JStr (js ''i2''))]\<rparr>]
             else []),
      views = (\<lambda>_ _ _. False),
      fresh_id = (\<lambda>rs. js ''new'' @ dec (length rs)),
      outage = (\<lambda>_. None),
      requests = []\<rparr>"

text \<open>
  A ledger with one bill of one page and one line item, and a record store whose tables
  are empty.
\<close>

definition one_item :: item where
  "one_item =
     \<lparr>item_id = js ''i1'', description = JStr (js ''x''), createdTime = JNull,
      chartOfAccountId = JNull, amount = JNull, customerId = JNull\<rparr>"

definition one_bill :: bill where
  "one_bill =
     \<lparr>bill_id = js ''b1'', bill_description = JNull, vendorId = JNull, invoiceDate = JNull,
      invoiceNumber = JNull, approvalStatus = JNull, paymentStatus = JNull,
      billLineItems = [one_item]\<rparr>"

definition one_page_api :: "jsstring \<Rightarrow> api" where
  "one_page_api sid =
     \<lparr>primaryOrgLogin = Inr sid,
      listActive = (\<lambda>_. Inr []),
      listActiveBill = Inr [one_bill],
      getDocumentPages = (\<lambda>_. Inr 1)\<rparr>"

definition empty_base :: base where
  "empty_base =
     \<lparr>tables = (\<lambda>_. []),
      views = (\<lambda>_ _ _. False),
      fresh_id = (\<lambda>rs. js ''rec'' @ dec (length rs)),
      outage = (\<lambda>_. None),
      requests = []\<rparr>"

text \<open>
  A record store whose mirror table has one row, for the line item of that ledger, with a
  vendor city from an earlier run.
\<close>

definition stale_base :: base where
  "stale_base =
     \<lparr>tables =
        (\<lambda>t. if t = js ''Bill Reporting''
             then [\<lparr>rid = js ''recA'',
                    rfields = [(js ''RS Bill.com Line Item ID'', JStr (js ''i1'')),
                               (js ''Vendor City'', JStr (js ''Oldtown''))]\<rparr>]
             else []),
      views = (\<lambda>_ _ _. False),
      fresh_id = (\<lambda>rs. js ''rec'' @ dec (length rs)),
      outage = (\<lambda>_. None),
      requests = []\<rparr>"

text \<open>The sample store when every request is rejected.\<close>

definition down_base :: base where
  "down_base = sample_base\<lparr>outage := (\<lambda>_. Some (Rejected (js ''503'')))\<rparr>"

section \<open>Successful requests to the record store\<close>

lemma never_fails_requests [simp]: "never_fails (b\<lparr>requests := n\<rparr>) = never_fails b"
  by (simp add: never_fails_def)

lemma never_fails_tables [simp]: "never_fails (b\<lparr>tables := t\<rparr>) = never_fails b"
  by (simp add: never_fails_def)

lemma airtable_request_ok:
  "never_fails b \<Longrightarrow> airtable_request q b = (None, b\<lparr>requests := requests b @ [q]\<rparr>)"
  by (simp add: airtable_request_def never_fails_def)

lemma concat_chunks: "0 < n \<Longrightarrow> concat (chunks n xs) = xs"
proof (induction n xs rule: chunks.induct)
  case (1 n xs)
  show ?case
  proof (cases "xs = []")
    case True
    then show ?thesis by (simp add: chunks.simps)
  next
    case False
    with 1 have "concat (chunks n (drop n xs)) = drop n xs" by simp
    with False 1(2) show ?thesis
      by (subst chunks.simps) simp
  qed
qed

lemma chunks_Nil: "chunks n [] = []"
  by (simp add: chunks.simps)

lemma upd_rows_append: "upd_rows (us @ vs) rs = upd_rows vs (upd_rows us rs)"
  by (simp add: upd_rows_def)

lemma append_rows_append:
  "append_rows fr (cs @ ds) rs = append_rows fr ds (append_rows fr cs rs)"
  by (simp add: append_rows_def)

lemma airtable_update_ok:
  "never_fails b \<Longrightarrow>
   airtable_update T us b =
     (Inr (), b\<lparr>requests := requests b @ [Update T us],
               tables := (tables b)(T := upd_rows us (tables b T))\<rparr>)"
  by (simp add: airtable_update_def airtable_request_ok)

lemma airtable_create_ok:
  "never_fails b \<Longrightarrow>
   airtable_create T cs b =
     (Inr (), b\<lparr>requests := requests b @ [Create T cs],
                tables := (tables b)(T := append_rows (fresh_id b) cs (tables b T))\<rparr>)"
  by (simp add: airtable_create_def airtable_request_ok)

lemma await_each_update:
  "never_fails b \<Longrightarrow>
   await_each (airtable_update T) css b =
     (Inr (map (\<lambda>_. ()) css),
      b\<lparr>requests := requests b @ map (Update T) css,
        tables := (tables b)(T := upd_rows (concat css) (tables b T))\<rparr>)"
proof (induction css arbitrary: b)
  case Nil
  then show ?case by (simp add: upd_rows_def)
next
  case (Cons c css)
  then show ?case
    by (simp add: airtable_update_ok upd_rows_append cong: if_cong)
qed

lemma await_each_create:
  "never_fails b \<Longrightarrow>
   await_each (airtable_create T) css b =
     (Inr (map (\<lambda>_. ()) css),
      b\<lparr>requests := requests b @ map (Create T) css,
        tables := (tables b)(T := append_rows (fresh_id b) (concat css) (tables b T))\<rparr>)"
proof (induction css arbitrary: b)
  case Nil
  then show ?case by (simp add: append_rows_def)
next
  case (Cons c css)
  then show ?case
    by (simp add: airtable_create_ok append_rows_append cong: if_cong)
qed

lemma update_ok:
  "never_fails b \<Longrightarrow>
   update T us b =
     (Inr (map (\<lambda>_. ()) (chunks 10 us)),
      b\<lparr>requests := requests b @ map (Update T) (chunks 10 us),
        tables := (tables b)(T := upd_rows us (tables b T))\<rparr>)"
  by (simp add: update_def batch_def batchAsync_def await_each_update concat_chunks
      catchError_def)

lemma create_ok:
  "never_fails b \<Longrightarrow>
   create T cs b =
     (Inr (map (\<lambda>_. ()) (chunks 10 cs)),
      b\<lparr>requests := requests b @ map (Create T) (chunks 10 cs),
        tables := (tables b)(T := append_rows (fresh_id b) cs (tables b T))\<rparr>)"
  by (simp add: create_def batch_def batchAsync_def await_each_create concat_chunks
      catchError_def)

lemma select_all_ok:
  "never_fails b \<Longrightarrow>
   airtable_select_all T [] b = (Inr (tables b T), b\<lparr>requests := requests b @ [Select T []]\<rparr>)"
  by (simp add: airtable_select_all_def airtable_request_ok in_view_def)

lemma pending_idx_settled [simp]: "pending_idx (map (\<lambda>v. Settled (f v)) vs) = []"
  by (simp add: pending_idx_def filter_empty_conv)

lemma rejected_already_fulfilled [simp]:
  "rejected_already (map (\<lambda>v. Settled (Inr (f v))) vs) = None"
  by (induction vs) (simp_all add: or_else_def)

lemma interleave_settled [simp]:
  "interleave sch (map (\<lambda>v. Settled (f v)) vs) first s =
     ((map (\<lambda>v. Settled (f v)) vs, first), s)"
  by (cases sch) simp_all

lemma settle_each_fulfilled [simp]:
  "settle_each (map (\<lambda>v. Settled (Inr (f v))) vs) first s = ((map (\<lambda>v. Inr (f v)) vs, first), s)"
  by (induction vs) simp_all

lemma values_of_fulfilled [simp]: "values_of (map (\<lambda>v. Inr (f v)) vs) = map f vs"
  by (induction vs) simp_all

lemma promise_all_fulfilled:
  "promise_all (map (\<lambda>v. Settled (Inr (f v))) vs) sch s = (Inr (map f vs), s)"
  by (simp add: promise_all_def)

lemma stage_all:
  "map_calls (sync_fn (stage_update u)) rs s =
     ((None, map (\<lambda>_. Settled (Inr ())) rs),
      s\<lparr>updates := updates s @ staged u (changes s) rs,
        changes := remaining u (changes s) rs\<rparr>)"
proof (induction rs arbitrary: s)
  case Nil
  then show ?case by (simp add: remaining_def)
next
  case (Cons r rs)
  then show ?case
    by (simp add: sync_fn_def stage_update_def Let_def rkey_def remaining_def)
qed

lemma never_fails_extend [simp]: "never_fails (base.extend b x) = never_fails b"
  by (simp add: never_fails_def base.extend_def)

lemma never_fails_updates [simp]: "never_fails (s\<lparr>updates := x\<rparr>) = never_fails s"
  by (simp add: never_fails_def)

lemma never_fails_changes [simp]: "never_fails (s\<lparr>changes := x\<rparr>) = never_fails s"
  by (simp add: never_fails_def)

lemma select_stage:
  "never_fails s \<Longrightarrow>
   select BILL_REPORTING_TABLE [] (sync_fn (stage_update u)) sch s =
     (Inr (map (\<lambda>_. ()) (tables s BILL_REPORTING_TABLE)),
      s\<lparr>requests := requests s @ [Select BILL_REPORTING_TABLE []],
        updates := updates s @ staged u (changes s) (tables s BILL_REPORTING_TABLE),
        changes := remaining u (changes s) (tables s BILL_REPORTING_TABLE)\<rparr>)"
  by (simp add: select_def select_all_ok stage_all promise_all_fulfilled catchError_def)

lemma main_run:
  assumes "never_fails b" and "build_changes u a = Inr chg"
  shows "main u a b =
     (Inr (),
      base.extend b \<lparr>updates = staged u chg (tables b BILL_REPORTING_TABLE),
                     changes = remaining u chg (tables b BILL_REPORTING_TABLE)\<rparr>
        \<lparr>requests := requests b @ [Select BILL_REPORTING_TABLE []]
            @ map (Update BILL_REPORTING_TABLE)
                (chunks 10 (staged u chg (tables b BILL_REPORTING_TABLE)))
            @ map (Create BILL_REPORTING_TABLE)
                (chunks 10 (creates_of u (remaining u chg (tables b BILL_REPORTING_TABLE)))),
         tables := (tables b)
           (BILL_REPORTING_TABLE :=
              append_rows (fresh_id b)
                (creates_of u (remaining u chg (tables b BILL_REPORTING_TABLE)))
                (upd_rows (staged u chg (tables b BILL_REPORTING_TABLE))
                   (tables b BILL_REPORTING_TABLE)))\<rparr>)"
  using assms
  by (simp add: main_def select_stage update_ok create_ok)
    (simp add: base.extend_def)

section \<open>The reconciliation run: staging and final state\<close>

lemma map_of_foldl_update:
  "map_of (foldl (\<lambda>ps (k, v). AList.update k v ps) ps kvs) = map_of ps ++ map_of (rev kvs)"
proof (induction kvs arbitrary: ps)
  case Nil
  then show ?case by simp
next
  case (Cons kv kvs)
  obtain k v where kv: "kv = (k, v)" by (cases kv)
  show ?case
    by (auto simp: kv Cons update_conv' fun_eq_iff map_add_def split: option.splits)
qed

lemma map_of_obj_literal: "map_of (obj_literal kvs) = map_of (rev kvs)"
  by (simp add: obj_literal_def map_of_foldl_update)

lemma obj_get_literal:
  "obj_get (obj_literal kvs) k = (case map_of (rev kvs) k of None \<Rightarrow> JUndefined | Some v \<Rightarrow> v)"
  by (simp add: obj_get_def map_of_obj_literal)

lemma length_billComIdFieldName:
  "length (billComIdFieldName u e) = length (PRIMARY_ORG u) + length e + 13"
  by (simp add: billComIdFieldName_def js_def)

lemma billComIdFieldName_inj [simp]:
  "(billComIdFieldName u e = billComIdFieldName u e') = (e = e')"
  by (simp add: billComIdFieldName_def)

lemma billComIdFieldName_neq_short:
  "length l < 13 + length e \<Longrightarrow> billComIdFieldName u e \<noteq> l"
  using length_billComIdFieldName [of u e] by auto

lemma billComIdFieldName_suffix:
  "drop (length (billComIdFieldName u e) - 3) (billComIdFieldName u e) = js '' ID''"
proof -
  have "billComIdFieldName u e = (PRIMARY_ORG u @ js '' Bill.com '' @ e) @ js '' ID''"
    by (simp add: billComIdFieldName_def)
  moreover have "length (js '' ID'') = 3" by (simp add: js_def)
  ultimately show ?thesis by simp
qed

lemma billComIdFieldName_neq_suffix:
  "drop (length l - 3) l \<noteq> js '' ID'' \<Longrightarrow> billComIdFieldName u e \<noteq> l"
  using billComIdFieldName_suffix [of u e] by auto

lemma js_Cons: "js (c # cs) = of_char c # js cs" by (simp add: js_def)
lemma js_Nil: "js [] = []" by (simp add: js_def)
lemma length_js: "length (js s) = length s" by (simp add: js_def)

lemma billComIdFieldName_neq_short':
  "length l < 13 + length e \<Longrightarrow> l \<noteq> billComIdFieldName u e"
  using billComIdFieldName_neq_short [of l e u] by auto

lemma billComIdFieldName_neq_suffix':
  "drop (length l - 3) l \<noteq> js '' ID'' \<Longrightarrow> l \<noteq> billComIdFieldName u e"
  using billComIdFieldName_neq_suffix [of l u e] by auto

lemmas bcid_neq = billComIdFieldName_neq_short billComIdFieldName_neq_short'

lemma item_fields_Active:
  "obj_get (item_fields u coa cust b docs sm it iv) (js ''Active'') = JBool True"
  by (simp add: item_fields_def obj_get_literal primaryBillComId_def
      bcid_neq js_Cons js_Nil)

lemma item_fields_key:
  "obj_get (item_fields u coa cust b docs sm it iv) (primaryBillComId u) = JStr (item_id it)"
  by (simp add: item_fields_def obj_get_literal primaryBillComId_def
      bcid_neq js_Cons js_Nil)

lemma map_get_JStr [simp]: "map_get m (JStr k) = map_of m k"
  by (simp add: map_get_def)

lemma map_get_Some_JStr: "map_get m v = Some x \<Longrightarrow> \<exists>k. v = JStr k \<and> map_of m k = Some x"
  by (cases v) (simp_all add: map_get_def)

lemma map_of_map_delete:
  "map_of (map_delete m v) k = (if v = JStr k then None else map_of m k)"
  by (cases v) (auto simp: map_delete_def delete_conv')

lemma distinct_map_delete: "distinct (map fst m) \<Longrightarrow> distinct (map fst (map_delete m v))"
  by (cases v) (simp_all add: map_delete_def distinct_delete)

lemma map_of_remaining:
  "map_of (remaining u chg rs) k = (if JStr k \<in> rkey u ` set rs then None else map_of chg k)"
  unfolding remaining_def
  by (induction rs arbitrary: chg) (auto simp: map_of_map_delete)

lemma distinct_remaining:
  "distinct (map fst chg) \<Longrightarrow> distinct (map fst (remaining u chg rs))"
  unfolding remaining_def
  by (induction rs arbitrary: chg) (auto simp: distinct_map_delete)

lemma remaining_Cons: "remaining u chg (r # rs) = remaining u (map_delete chg (rkey u r)) rs"
  by (simp add: remaining_def)

lemma length_staged [simp]: "length (staged u chg rs) = length rs"
  by (induction rs arbitrary: chg) auto

lemma map_uid_staged: "map uid (staged u chg rs) = map rid rs"
  by (induction rs arbitrary: chg) auto

lemma staged_nth:
  "i < length rs \<Longrightarrow>
   staged u chg rs ! i =
     \<lparr>uid = rid (rs ! i),
      ufields = (case map_get (remaining u chg (take i rs)) (rkey u (rs ! i)) of
                   Some fs \<Rightarrow> fs
                 | None \<Rightarrow> [(js ''Active'', JBool False)])\<rparr>"
proof (induction rs arbitrary: chg i)
  case Nil
  then show ?case by simp
next
  case (Cons r rs)
  show ?case
  proof (cases i)
    case 0
    then show ?thesis by (simp add: remaining_def)
  next
    case (Suc j)
    with Cons show ?thesis by (simp add: remaining_Cons)
  qed
qed

lemma rid_apply_upd [simp]: "rid (apply_upd u r) = rid r"
  by (simp add: apply_upd_def)

lemma upd_rows_map: "upd_rows us rs = map (\<lambda>r. foldl (\<lambda>r u. apply_upd u r) r us) rs"
  unfolding upd_rows_def
  by (induction us arbitrary: rs) (simp_all add: comp_def)

lemma foldl_apply_other:
  "\<forall>v \<in> set us. uid v \<noteq> rid r \<Longrightarrow> foldl (\<lambda>r u. apply_upd u r) r us = r"
  by (induction us arbitrary: r) (auto simp: apply_upd_def)

lemma foldl_apply_one:
  "distinct (map uid us) \<Longrightarrow> i < length us \<Longrightarrow> uid (us ! i) = rid r \<Longrightarrow>
   foldl (\<lambda>r u. apply_upd u r) r us = apply_upd (us ! i) r"
proof (induction us arbitrary: r i)
  case Nil
  then show ?case by simp
next
  case (Cons v us)
  show ?case
  proof (cases i)
    case 0
    with Cons.prems have "uid v \<notin> uid ` set us" and "uid v = rid r"
      by simp_all
    then have "\<forall>w \<in> set us. uid w \<noteq> rid (apply_upd v r)"
      by (simp add: image_iff) metis
    then show ?thesis using 0 by (simp add: foldl_apply_other)
  next
    case (Suc j)
    with Cons.prems have j: "j < length us" and "uid (us ! j) = rid r"
      and "uid v \<notin> uid ` set us"
      by simp_all
    then have "rid r \<in> uid ` set us"
      by (metis nth_mem image_eqI)
    with \<open>uid v \<notin> uid ` set us\<close> have "uid v \<noteq> rid r"
      by auto
    then have "apply_upd v r = r" by (simp add: apply_upd_def)
    moreover have "distinct (map uid us)" using Cons.prems by simp
    ultimately show ?thesis
      using Cons.IH [of j r] j \<open>uid (us ! j) = rid r\<close> Suc by simp
  qed
qed

lemma upd_rows_staged_nth:
  assumes "distinct (map rid rs)" and "i < length rs"
  shows "upd_rows (staged u chg rs) rs ! i =
     (rs ! i)\<lparr>rfields :=
        AList.merge (rfields (rs ! i)) (sent (ufields (staged u chg rs ! i)))\<rparr>"
proof -
  have "distinct (map uid (staged u chg rs))"
    using assms(1) by (simp add: map_uid_staged)
  moreover have "uid (staged u chg rs ! i) = rid (rs ! i)"
    using assms(2) by (simp add: staged_nth)
  ultimately have "foldl (\<lambda>r v. apply_upd v r) (rs ! i) (staged u chg rs)
      = apply_upd (staged u chg rs ! i) (rs ! i)"
    using assms(2) by (intro foldl_apply_one) simp_all
  then show ?thesis
    using assms(2) \<open>uid (staged u chg rs ! i) = rid (rs ! i)\<close>
    by (simp add: upd_rows_map apply_upd_def)
qed

lemma length_upd_rows [simp]: "length (upd_rows us rs) = length rs"
  by (simp add: upd_rows_map)

lemma append_rows_new:
  "\<exists>news. append_rows fr cs rs = rs @ news \<and> map rfields news = map sent cs"
proof (induction cs rule: rev_induct)
  case Nil
  then show ?case by (simp add: append_rows_def)
next
  case (snoc c cs)
  then obtain news where n: "append_rows fr cs rs = rs @ news" "map rfields news = map sent cs"
    by auto
  have "append_rows fr (cs @ [c]) rs
      = rs @ (news @ [\<lparr>rid = fr (rs @ news), rfields = sent c\<rparr>])"
    using n(1) by (simp add: append_rows_def)
  moreover have "map rfields (news @ [\<lparr>rid = fr (rs @ news), rfields = sent c\<rparr>])
      = map sent (cs @ [c])"
    using n(2) by simp
  ultimately show ?case by (intro exI conjI)
qed

lemma set_fst_update: "fst ` set (AList.update k v al) = insert k (fst ` set al)"
  by (induction al) auto

lemma items_loop_keys:
  "items_loop u coa cust b docs sm vendor its chg = Inr chg' \<Longrightarrow>
   fst ` set chg' = fst ` set chg \<union> item_id ` set its"
  by (induction its arbitrary: chg) (auto simp: set_fst_update split: sum.splits)

lemma items_loop_distinct:
  "items_loop u coa cust b docs sm vendor its chg = Inr chg' \<Longrightarrow>
   distinct (map fst chg) \<Longrightarrow> distinct (map fst chg')"
  by (induction its arbitrary: chg) (auto simp: distinct_update split: sum.splits)

lemma items_loop_inv:
  assumes "items_loop u coa cust b docs sm vendor its chg = Inr chg'"
    and "\<And>k fs. map_of chg k = Some fs \<Longrightarrow> Q k fs"
    and "\<And>it iv. Q (item_id it) (item_fields u coa cust b docs sm it iv)"
    and "map_of chg' k = Some fs"
  shows "Q k fs"
  using assms
proof (induction its arbitrary: chg)
  case Nil
  then show ?case by simp
next
  case (Cons it its)
  from Cons.prems(1) obtain iv where iv: "itemVendor_of it vendor = Inr iv"
    and rest: "items_loop u coa cust b docs sm vendor its
        (AList.update (item_id it) (item_fields u coa cust b docs sm it iv) chg) = Inr chg'"
    by (auto simp: item_entry_def split: sum.splits)
  show ?case
  proof (rule Cons.IH [OF rest _ Cons.prems(3) Cons.prems(4)])
    fix k' fs'
    assume "map_of (AList.update (item_id it) (item_fields u coa cust b docs sm it iv) chg) k'
        = Some fs'"
    then show "Q k' fs'"
      using Cons.prems(2) Cons.prems(3) [of it iv]
      by (auto simp: update_conv' split: if_splits)
  qed
qed

lemma bills_loop_keys:
  "bills_loop u a sid vendors coa cust bs chg = Inr chg' \<Longrightarrow>
   fst ` set chg' = fst ` set chg \<union> item_id ` set (concat (map billLineItems bs))"
proof (induction bs arbitrary: chg)
  case Nil
  then show ?case by simp
next
  case (Cons b bs)
  from Cons.prems obtain n sm c1 where
    c1: "items_loop u coa cust b (docs_of sid (bill_id b) n) sm
           (case map_get vendors (vendorId b) of None \<Rightarrow> [] | Some v \<Rightarrow> v)
           (billLineItems b) chg = Inr c1"
    and rest: "bills_loop u a sid vendors coa cust bs c1 = Inr chg'"
    by (auto split: sum.splits)
  show ?case
    using items_loop_keys [OF c1] Cons.IH [OF rest] by auto
qed

lemma bills_loop_distinct:
  "bills_loop u a sid vendors coa cust bs chg = Inr chg' \<Longrightarrow>
   distinct (map fst chg) \<Longrightarrow> distinct (map fst chg')"
proof (induction bs arbitrary: chg)
  case Nil
  then show ?case by simp
next
  case (Cons b bs)
  from Cons.prems(1) obtain n sm c1 where
    c1: "items_loop u coa cust b (docs_of sid (bill_id b) n) sm
           (case map_get vendors (vendorId b) of None \<Rightarrow> [] | Some v \<Rightarrow> v)
           (billLineItems b) chg = Inr c1"
    and rest: "bills_loop u a sid vendors coa cust bs c1 = Inr chg'"
    by (auto split: sum.splits)
  show ?case
    using items_loop_distinct [OF c1 Cons.prems(2)] Cons.IH [OF rest] by simp
qed

lemma bills_loop_inv:
  assumes "bills_loop u a sid vendors coa cust bs chg = Inr chg'"
    and "\<And>k fs. map_of chg k = Some fs \<Longrightarrow> Q k fs"
    and "\<And>b docs sm it iv. Q (item_id it) (item_fields u coa cust b docs sm it iv)"
    and "map_of chg' k = Some fs"
  shows "Q k fs"
  using assms
proof (induction bs arbitrary: chg)
  case Nil
  then show ?case by simp
next
  case (Cons b bs)
  from Cons.prems(1) obtain n sm c1 where
    c1: "items_loop u coa cust b (docs_of sid (bill_id b) n) sm
           (case map_get vendors (vendorId b) of None \<Rightarrow> [] | Some v \<Rightarrow> v)
           (billLineItems b) chg = Inr c1"
    and rest: "bills_loop u a sid vendors coa cust bs c1 = Inr chg'"
    by (auto split: sum.splits)
  show ?case
  proof (rule Cons.IH [OF rest _ Cons.prems(3) Cons.prems(4)])
    fix k' fs'
    assume "map_of c1 k' = Some fs'"
    then show "Q k' fs'"
      using items_loop_inv [OF c1, of Q k' fs'] Cons.prems(2) Cons.prems(3) by blast
  qed
qed

lemma build_changes_keys:
  assumes "build_changes u a = Inr chg"
  shows "fst ` set chg = item_id ` set (ledger_items a)"
proof -
  from assms obtain sid vendors coa cust bills where
    "listActiveBill a = Inr bills"
    and "bills_loop u a sid vendors coa cust bills [] = Inr chg"
    by (auto simp: build_changes_def split: sum.splits)
  then show ?thesis
    using bills_loop_keys [of u a sid vendors coa cust bills "[]" chg]
    by (simp add: ledger_items_def)
qed

lemma build_changes_distinct:
  assumes "build_changes u a = Inr chg"
  shows "distinct (map fst chg)"
proof -
  from assms obtain sid vendors coa cust bills where
    "bills_loop u a sid vendors coa cust bills [] = Inr chg"
    by (auto simp: build_changes_def split: sum.splits)
  then show ?thesis
    using bills_loop_distinct [of u a sid vendors coa cust bills "[]" chg] by simp
qed

lemma build_changes_entry:
  assumes "build_changes u a = Inr chg" and "map_of chg k = Some fs"
  shows "obj_get fs (js ''Active'') = JBool True \<and> obj_get fs (primaryBillComId u) = JStr k"
proof -
  from assms obtain sid vendors coa cust bills where
    bl: "bills_loop u a sid vendors coa cust bills [] = Inr chg"
    by (auto simp: build_changes_def split: sum.splits)
  show ?thesis
    by (rule bills_loop_inv [OF bl _ _ assms(2)])
      (simp_all add: item_fields_Active item_fields_key)
qed

lemma map_of_sent_Some:
  "map_of fs f = Some v \<Longrightarrow> v \<noteq> JUndefined \<Longrightarrow> map_of (sent fs) f = Some v"
  by (induction fs) (auto simp: sent_def)

lemma map_of_sent_None: "map_of fs f = None \<Longrightarrow> map_of (sent fs) f = None"
  by (induction fs) (auto simp: sent_def split: if_splits)

lemma map_of_sent_undefined:
  "distinct (map fst fs) \<Longrightarrow> map_of fs f = Some JUndefined \<Longrightarrow> map_of (sent fs) f = None"
proof (induction fs)
  case Nil
  then show ?case by simp
next
  case (Cons p fs)
  show ?case
  proof (cases "fst p = f")
    case True
    with Cons.prems have "f \<notin> fst ` set fs" and "snd p = JUndefined" by auto
    then have "map_of fs f = None" by (simp add: map_of_eq_None_iff)
    then have "map_of (sent fs) f = None" by (rule map_of_sent_None)
    with True \<open>snd p = JUndefined\<close> show ?thesis
      by (cases p) (simp add: sent_def)
  next
    case False
    with Cons show ?thesis by (cases p) (auto simp: sent_def)
  qed
qed

lemma map_of_sent:
  "distinct (map fst fs) \<Longrightarrow>
   map_of (sent fs) f = (if obj_get fs f = JUndefined then None else Some (obj_get fs f))"
  by (cases "map_of fs f")
    (auto simp: obj_get_def map_of_sent_None map_of_sent_Some map_of_sent_undefined)

lemma sent_inactive [simp]:
  "sent [(js ''Active'', JBool b)] = [(js ''Active'', JBool b)]"
  by (simp add: sent_def)

lemma distinct_obj_literal_aux:
  "distinct (map fst ps) \<Longrightarrow>
   distinct (map fst (foldl (\<lambda>ps (k, v). AList.update k v ps) ps kvs))"
  by (induction kvs arbitrary: ps) (auto simp: distinct_update)

lemma distinct_obj_literal: "distinct (map fst (obj_literal kvs))"
  by (simp add: obj_literal_def distinct_obj_literal_aux)

lemma build_changes_distinct_fields:
  assumes "build_changes u a = Inr chg" and "map_of chg k = Some fs"
  shows "distinct (map fst fs)"
proof -
  from assms obtain sid vendors coa cust bills where
    bl: "bills_loop u a sid vendors coa cust bills [] = Inr chg"
    by (auto simp: build_changes_def split: sum.splits)
  show ?thesis
    by (rule bills_loop_inv [OF bl _ _ assms(2)])
      (simp_all add: item_fields_def distinct_obj_literal)
qed

lemma obj_get_merge:
  "obj_get (AList.merge old new) f =
     (case map_of new f of None \<Rightarrow> obj_get old f | Some v \<Rightarrow> v)"
  by (simp add: obj_get_def merge_conv' map_add_def split: option.splits)

lemma obj_get_merge_sent:
  "distinct (map fst new) \<Longrightarrow>
   obj_get (AList.merge old (sent new)) f =
     (if obj_get new f = JUndefined then obj_get old f else obj_get new f)"
  by (simp add: obj_get_merge map_of_sent)

lemma obj_get_update:
  "obj_get (AList.update k v fs) f = (if f = k then v else obj_get fs f)"
  by (simp add: obj_get_def update_conv')

lemma obj_get_in_keys: "f \<in> fst ` set fs \<Longrightarrow> map_of fs f = Some (obj_get fs f)"
  by (cases "map_of fs f") (auto simp: obj_get_def map_of_eq_None_iff)

lemma Active_neq_key: "js ''Active'' \<noteq> primaryBillComId u"
  by (simp add: primaryBillComId_def bcid_neq js_def)

lemma ledger_ok_changes: "ledger_ok u a \<Longrightarrow> build_changes u a = Inr (the_changes u a)"
  by (simp add: ledger_ok_def the_changes_def split: sum.splits)

text \<open>The final state of a run.\<close>

lemma main_final:
  assumes "never_fails b" and "ledger_ok u a"
  defines "rows \<equiv> tables b BILL_REPORTING_TABLE"
  defines "chg \<equiv> the_changes u a"
  shows "fst (main u a b) = Inr ()"
    and "updates (snd (main u a b)) = staged u chg rows"
    and "changes (snd (main u a b)) = remaining u chg rows"
    and "\<exists>news. tables (snd (main u a b)) BILL_REPORTING_TABLE
            = upd_rows (staged u chg rows) rows @ news
          \<and> map rfields news = map sent (creates_of u (remaining u chg rows))"
    and "requests (snd (main u a b)) =
           requests b @ [Select BILL_REPORTING_TABLE []]
           @ map (Update BILL_REPORTING_TABLE) (chunks 10 (staged u chg rows))
           @ map (Create BILL_REPORTING_TABLE)
               (chunks 10 (creates_of u (remaining u chg rows)))"
proof -
  note run = main_run [OF assms(1) ledger_ok_changes [OF assms(2)]]
  show "fst (main u a b) = Inr ()" by (simp add: run)
  show "updates (snd (main u a b)) = staged u chg rows"
    by (simp add: run rows_def chg_def base.extend_def)
  show "changes (snd (main u a b)) = remaining u chg rows"
    by (simp add: run rows_def chg_def base.extend_def)
  show "\<exists>news. tables (snd (main u a b)) BILL_REPORTING_TABLE
            = upd_rows (staged u chg rows) rows @ news
          \<and> map rfields news = map sent (creates_of u (remaining u chg rows))"
    using append_rows_new [of "fresh_id b" "creates_of u (remaining u chg rows)"
        "upd_rows (staged u chg rows) rows"]
    by (simp add: run rows_def chg_def base.extend_def)
  show "requests (snd (main u a b)) =
           requests b @ [Select BILL_REPORTING_TABLE []]
           @ map (Update BILL_REPORTING_TABLE) (chunks 10 (staged u chg rows))
           @ map (Create BILL_REPORTING_TABLE)
               (chunks 10 (creates_of u (remaining u chg rows)))"
    by (simp add: run rows_def chg_def base.extend_def)
qed

text \<open>What is staged for the row at position \<open>i\<close>.\<close>

lemma staged_absent:
  assumes "i < length rs" and "map_get chg (rkey u (rs ! i)) = None"
  shows "staged u chg rs ! i = \<lparr>uid = rid (rs ! i), ufields = [(js ''Active'', JBool False)]\<rparr>"
proof -
  have "map_get (remaining u chg (take i rs)) (rkey u (rs ! i)) = None"
    using assms(2)
    by (cases "rkey u (rs ! i)") (simp_all add: map_get_def map_of_remaining)
  then show ?thesis using assms(1) by (simp add: staged_nth)
qed

lemma staged_first:
  assumes "i < length rs" and "rkey u (rs ! i) = JStr k" and "map_of chg k = Some fs"
    and "\<forall>r \<in> set (take i rs). rkey u r \<noteq> JStr k"
  shows "staged u chg rs ! i = \<lparr>uid = rid (rs ! i), ufields = fs\<rparr>"
proof -
  have "map_of (remaining u chg (take i rs)) k = Some fs"
    using assms(3,4) by (auto simp: map_of_remaining)
  then show ?thesis using assms(1,2) by (simp add: staged_nth)
qed

lemma staged_later:
  assumes "j < length rs" and "rkey u (rs ! j) = JStr k"
    and "i < j" and "rkey u (rs ! i) = JStr k"
  shows "staged u chg rs ! j = \<lparr>uid = rid (rs ! j), ufields = [(js ''Active'', JBool False)]\<rparr>"
proof -
  have "rs ! i \<in> set (take j rs)"
    using assms(1,3) by (metis in_set_conv_nth length_take min.absorb2 less_imp_le nth_take)
  then have "JStr k \<in> rkey u ` set (take j rs)"
    using assms(4) by (metis image_eqI)
  then have "map_of (remaining u chg (take j rs)) k = None"
    by (simp add: map_of_remaining)
  then show ?thesis using assms(1,2) by (simp add: staged_nth)
qed

lemma map_of_Some_in_keys: "map_of m k = Some v \<Longrightarrow> k \<in> fst ` set m"
  by (metis map_of_eq_None_iff option.distinct(1))

lemma in_keys_map_of: "k \<in> fst ` set m \<Longrightarrow> \<exists>v. map_of m k = Some v"
  by (metis map_of_eq_None_iff not_Some_eq)

lemma final_existing_row:
  assumes nf: "never_fails b" and ok: "ledger_ok u a"
    and d: "distinct (map rid (tables b BILL_REPORTING_TABLE))"
    and i: "i < length (tables b BILL_REPORTING_TABLE)"
  shows "tables (snd (main u a b)) BILL_REPORTING_TABLE ! i =
     (tables b BILL_REPORTING_TABLE ! i)
       \<lparr>rfields := AList.merge (rfields (tables b BILL_REPORTING_TABLE ! i))
                     (sent (ufields (updates (snd (main u a b)) ! i)))\<rparr>"
proof -
  obtain news where "tables (snd (main u a b)) BILL_REPORTING_TABLE =
      upd_rows (staged u (the_changes u a) (tables b BILL_REPORTING_TABLE))
        (tables b BILL_REPORTING_TABLE) @ news"
    using main_final(4) [OF nf ok] by blast
  then show ?thesis
    using i by (simp add: nth_append upd_rows_staged_nth [OF d i] main_final(2) [OF nf ok])
qed

lemma obj_get_defined: "obj_get fs f = v \<Longrightarrow> v \<noteq> JUndefined \<Longrightarrow> map_of fs f = Some v"
  by (cases "map_of fs f") (auto simp: obj_get_def)

lemma unique_first:
  assumes "length (filter P xs) \<le> 1" and "i < length xs" and "P (xs ! i)"
  shows "\<forall>x \<in> set (take i xs). \<not> P x"
proof -
  have "xs = take i xs @ xs ! i # drop (Suc i) xs"
    using assms(2) by (rule id_take_nth_drop)
  then have "length (filter P xs) =
      length (filter P (take i xs)) + length (filter P (xs ! i # drop (Suc i) xs))"
    by (metis filter_append length_append)
  with assms(1,3) have "length (filter P (take i xs)) = 0" by simp
  then show ?thesis by (simp add: filter_empty_conv)
qed

lemma count_distinct:
  "distinct ys \<Longrightarrow> length (filter (\<lambda>x. x = c) ys) = (if c \<in> set ys then 1 else 0)"
  by (induction ys) auto

lemma count_map: "length (filter (\<lambda>r. f r = c) xs) = length (filter (\<lambda>x. x = c) (map f xs))"
  by (simp add: filter_map comp_def)

lemma rkey_upd_rows:
  assumes d: "distinct (map rid rs)"
    and good: "\<And>k fs. map_of chg k = Some fs \<Longrightarrow> obj_get fs (primaryBillComId u) = JStr k"
  shows "map (rkey u) (upd_rows (staged u chg rs) rs) = map (rkey u) rs"
proof (rule nth_equalityI)
  show "length (map (rkey u) (upd_rows (staged u chg rs) rs)) = length (map (rkey u) rs)"
    by simp
next
  fix i assume "i < length (map (rkey u) (upd_rows (staged u chg rs) rs))"
  then have i: "i < length rs" by simp
  let ?m = "map_get (remaining u chg (take i rs)) (rkey u (rs ! i))"
  have "rkey u (upd_rows (staged u chg rs) rs ! i) = rkey u (rs ! i)"
  proof (cases ?m)
    case None
    then show ?thesis
      using i Active_neq_key [of u]
      by (simp add: upd_rows_staged_nth [OF d i] staged_nth rkey_def get_def obj_get_update)
  next
    case (Some fs)
    from map_get_Some_JStr [OF Some] obtain k where k: "rkey u (rs ! i) = JStr k"
      and "map_of (remaining u chg (take i rs)) k = Some fs"
      by blast
    then have "map_of chg k = Some fs"
      by (simp add: map_of_remaining split: if_splits)
    then have "obj_get fs (primaryBillComId u) = JStr k"
      by (rule good)
    then have "map_of fs (primaryBillComId u) = Some (JStr k)"
      by (rule obj_get_defined) simp
    then have "map_of (sent fs) (primaryBillComId u) = Some (JStr k)"
      by (rule map_of_sent_Some) simp
    then have "obj_get (AList.merge (rfields (rs ! i)) (sent fs)) (primaryBillComId u) = JStr k"
      by (simp add: obj_get_merge)
    then show ?thesis
      using i Some k
      by (simp add: upd_rows_staged_nth [OF d i] staged_nth rkey_def get_def)
  qed
  then show "map (rkey u) (upd_rows (staged u chg rs) rs) ! i = map (rkey u) rs ! i"
    using i by simp
qed

lemma obj_get_sent_created:
  "obj_get (sent (AList.update k (JStr i) data)) k = JStr i"
proof -
  have "map_of (AList.update k (JStr i) data) k = Some (JStr i)"
    by (simp add: update_conv')
  then have "map_of (sent (AList.update k (JStr i) data)) k = Some (JStr i)"
    by (rule map_of_sent_Some) simp
  then show ?thesis by (simp add: obj_get_def)
qed

lemma rkey_created:
  assumes "map rfields news = map sent (creates_of u rest)"
  shows "map (rkey u) news = map (JStr \<circ> fst) rest"
proof -
  have "map (rkey u) news = map (\<lambda>fs. obj_get fs (primaryBillComId u)) (map rfields news)"
    by (simp add: rkey_def get_def comp_def)
  also have "\<dots> = map (JStr \<circ> fst) rest"
    by (simp add: assms creates_of_def obj_get_sent_created split_def comp_def)
  finally show ?thesis .
qed

lemma count_created:
  assumes "distinct (map fst rest)" and "map (rkey u) news = map (JStr \<circ> fst) rest"
  shows "length (filter (\<lambda>r. rkey u r = JStr k) news) = (if k \<in> fst ` set rest then 1 else 0)"
proof -
  have "length (filter (\<lambda>r. rkey u r = JStr k) news)
      = length (filter (\<lambda>x. x = JStr k) (map (rkey u) news))"
    by (rule count_map)
  also have "\<dots> = length (filter (\<lambda>x. x = JStr k) (map JStr (map fst rest)))"
    by (simp add: assms(2))
  also have "\<dots> = length (filter (\<lambda>x. x = k) (map fst rest))"
    by (simp add: filter_map comp_def)
  also have "\<dots> = (if k \<in> set (map fst rest) then 1 else 0)"
    by (rule count_distinct [OF assms(1)])
  finally show ?thesis by simp
qed

lemma count_at_most_one:
  assumes "length (filter P xs) \<le> 1"
  shows "length (filter P xs) = (if \<exists>x \<in> set xs. P x then 1 else 0)"
proof (cases "\<exists>x \<in> set xs. P x")
  case True
  then have "filter P xs \<noteq> []" by (simp add: filter_empty_conv)
  then have "0 < length (filter P xs)" by simp
  with assms have "length (filter P xs) = 1" by linarith
  with True show ?thesis by simp
next
  case False
  then have "filter P xs = []" by (simp add: filter_empty_conv)
  with False show ?thesis by simp
qed

lemma remaining_key_iff:
  assumes "map_of chg k = Some fs"
  shows "k \<in> fst ` set (remaining u chg rs) \<longleftrightarrow> \<not> (\<exists>r \<in> set rs. rkey u r = JStr k)"
proof -
  have "map_of (remaining u chg rs) k = (if JStr k \<in> rkey u ` set rs then None else Some fs)"
    by (simp add: map_of_remaining assms)
  moreover have "JStr k \<in> rkey u ` set rs \<longleftrightarrow> (\<exists>r \<in> set rs. rkey u r = JStr k)"
    by (simp add: image_iff) metis
  ultimately show ?thesis
    using map_of_eq_None_iff [of "remaining u chg rs" k] by (simp split: if_splits)
qed

lemma existing_row_fields:
  assumes d: "distinct (map rid rs)" and i: "i < length rs"
    and ki: "rkey u (rs ! i) = JStr k"
    and uniq: "length (filter (\<lambda>r. rkey u r = JStr k) rs) \<le> 1"
    and fs: "map_of chg k = Some fs"
  shows "rfields (upd_rows (staged u chg rs) rs ! i) = AList.merge (rfields (rs ! i)) (sent fs)"
proof -
  have "\<forall>x \<in> set (take i rs). rkey u x \<noteq> JStr k"
    by (rule unique_first [OF uniq i ki])
  then have "staged u chg rs ! i = \<lparr>uid = rid (rs ! i), ufields = fs\<rparr>"
    by (rule staged_first [OF i ki fs])
  then show ?thesis
    by (simp add: upd_rows_staged_nth [OF d i])
qed

lemma created_row_fields:
  assumes news: "map rfields news = map sent (creates_of u rest)" and r: "r \<in> set news"
    and rk: "rkey u r = JStr k" and drest: "distinct (map fst rest)"
  shows "\<exists>data. map_of rest k = Some data
      \<and> rfields r = sent (AList.update (primaryBillComId u) (JStr k) data)"
proof -
  have "rfields r \<in> set (map rfields news)"
    using r by (rule imageI [of r "set news" rfields, simplified set_map [symmetric]])
  then have "rfields r \<in> set (map sent (creates_of u rest))"
    by (simp add: news)
  then obtain k' data where kd: "(k', data) \<in> set rest"
    and rf: "rfields r = sent (AList.update (primaryBillComId u) (JStr k') data)"
    by (auto simp: creates_of_def)
  have "rkey u r = JStr k'"
    by (simp add: rkey_def get_def rf obj_get_sent_created)
  with rk have k': "k' = k" by simp
  have "map_of rest k = Some data"
    using drest kd unfolding k' by (rule map_of_is_SomeI)
  then show ?thesis using rf k' by simp
qed


section \<open>The reconciliation run: a second run\<close>

lemma staged_append:
  "staged u chg (xs @ ys) = staged u chg xs @ staged u (remaining u chg xs) ys"
  by (induction xs arbitrary: chg) (simp_all add: remaining_def)

lemma remaining_append:
  "remaining u chg (xs @ ys) = remaining u (remaining u chg xs) ys"
  by (simp add: remaining_def)

lemma remaining_cong:
  "map (rkey u) rs = map (rkey u) rs' \<Longrightarrow> remaining u chg rs = remaining u chg rs'"
proof (induction rs arbitrary: rs' chg)
  case Nil
  then show ?case by simp
next
  case (Cons r rs)
  then obtain r' rs'' where "rs' = r' # rs''" by (cases rs') auto
  with Cons show ?case by (simp add: remaining_Cons)
qed

lemma staged_cong:
  "map (rkey u) rs = map (rkey u) rs' \<Longrightarrow> map rid rs = map rid rs' \<Longrightarrow>
   staged u chg rs = staged u chg rs'"
proof (induction rs arbitrary: rs' chg)
  case Nil
  then show ?case by simp
next
  case (Cons r rs)
  then obtain r' rs'' where "rs' = r' # rs''" by (cases rs') auto
  with Cons show ?case by simp
qed

lemma rid_foldl_apply_upd [simp]: "rid (foldl (\<lambda>r u. apply_upd u r) r us) = rid r"
  by (induction us arbitrary: r) simp_all

lemma map_rid_upd_rows: "map rid (upd_rows us rs) = map rid rs"
  by (simp add: upd_rows_map comp_def)

text \<open>Streaming the rows just created for the entries that were left.\<close>

lemma staged_created:
  assumes "distinct (map fst rest)" and "map (rkey u) news = map (JStr \<circ> fst) rest"
  shows "map ufields (staged u rest news) = map snd rest \<and> remaining u rest news = []"
  using assms
proof (induction rest arbitrary: news)
  case Nil
  then show ?case by (simp add: remaining_def)
next
  case (Cons e rest)
  obtain k data where e: "e = (k, data)" by (cases e)
  from Cons.prems(2) obtain n news' where n: "news = n # news'" by (cases news) auto
  with Cons.prems(2) e have kn: "rkey u n = JStr k"
    and rest': "map (rkey u) news' = map (JStr \<circ> fst) rest"
    by simp_all
  have "k \<notin> fst ` set rest" using Cons.prems(1) e by simp
  then have del: "map_delete (e # rest) (rkey u n) = rest"
    by (simp add: kn map_delete_def e)
  have "distinct (map fst rest)" using Cons.prems(1) by simp
  from Cons.IH [OF this rest'] show ?case
    by (simp add: n kn e remaining_Cons del [unfolded e kn])
qed


lemma second_base:
  assumes "never_fails b" and "ledger_ok u a"
  shows "never_fails (base.truncate (snd (main u a b)))"
    and "tables (base.truncate (snd (main u a b))) = tables (snd (main u a b))"
    and "requests (base.truncate (snd (main u a b))) = requests (snd (main u a b))"
  using assms(1)
  by (simp_all add: main_run [OF assms(1) ledger_ok_changes [OF assms(2)]]
      base.truncate_def base.extend_def never_fails_def)

lemma agree_existing:
  assumes d: "distinct (map rid rs)" and i: "i < length rs"
    and f: "obj_get (ufields (staged u chg rs ! i)) f = v" and v: "v \<noteq> JUndefined"
  shows "obj_get (rfields (upd_rows (staged u chg rs) rs ! i)) f = v"
proof -
  have "map_of (ufields (staged u chg rs ! i)) f = Some v"
    using f v by (rule obj_get_defined)
  then have "map_of (sent (ufields (staged u chg rs ! i))) f = Some v"
    using v by (rule map_of_sent_Some)
  then show ?thesis
    by (simp add: upd_rows_staged_nth [OF d i] obj_get_merge)
qed

lemma agree_created:
  assumes news: "map rfields news = map sent (creates_of u rest)"
    and good: "\<And>k fs. (k, fs) \<in> set rest \<Longrightarrow> obj_get fs (primaryBillComId u) = JStr k"
    and j: "j < length rest"
    and f: "obj_get (snd (rest ! j)) f = v" and v: "v \<noteq> JUndefined"
  shows "obj_get (rfields (news ! j)) f = v"
proof -
  have len: "length news = length rest"
    using arg_cong [OF news, of length] by (simp add: creates_of_def)
  have "rfields (news ! j) = map sent (creates_of u rest) ! j"
    using arg_cong [OF news, of "\<lambda>l. l ! j"] j len by simp
  then have rf: "rfields (news ! j)
      = sent (AList.update (primaryBillComId u) (JStr (fst (rest ! j))) (snd (rest ! j)))"
    using j by (simp add: creates_of_def split_def)
  have "(fst (rest ! j), snd (rest ! j)) \<in> set rest"
    using j by simp
  from good [OF this] have key: "obj_get (snd (rest ! j)) (primaryBillComId u)
      = JStr (fst (rest ! j))" .
  have "obj_get (AList.update (primaryBillComId u) (JStr (fst (rest ! j))) (snd (rest ! j))) f
      = v"
    using f key by (auto simp: obj_get_update)
  then have "map_of (AList.update (primaryBillComId u) (JStr (fst (rest ! j))) (snd (rest ! j))) f
      = Some v"
    using v by (rule obj_get_defined)
  then have "map_of (rfields (news ! j)) f = Some v"
    unfolding rf using v by (rule map_of_sent_Some)
  then show ?thesis by (simp add: obj_get_def)
qed

lemma js_match_ok: "(\<exists>m. js_match v re = Inr m) = is_str v"
  by (cases v) (simp_all add: js_match_def is_str_def)

lemma itemVendor_of_ok: "(\<exists>iv. itemVendor_of it vendor = Inr iv) = is_str (description it)"
  by (cases "description it")
    (auto simp: itemVendor_of_def js_match_def is_str_def split: option.splits)

lemma item_entry_ok:
  "(\<exists>fs. item_entry u coa cust b docs sm vendor it = Inr fs) = is_str (description it)"
  using itemVendor_of_ok [of it vendor]
  by (cases "itemVendor_of it vendor") (auto simp: item_entry_def)

lemma items_loop_ok:
  "(\<exists>chg'. items_loop u coa cust b docs sm vendor its chg = Inr chg')
     = list_all (\<lambda>it. is_str (description it)) its"
proof (induction its arbitrary: chg)
  case Nil
  then show ?case by simp
next
  case (Cons it its)
  show ?case
  proof (cases "item_entry u coa cust b docs sm vendor it")
    case (Inl e)
    then have "\<not> is_str (description it)"
      using item_entry_ok [of u coa cust b docs sm vendor it] by simp
    with Inl show ?thesis by simp
  next
    case (Inr fs)
    then have "is_str (description it)"
      using item_entry_ok [of u coa cust b docs sm vendor it] by auto
    with Inr Cons show ?thesis by simp
  qed
qed

lemma js_match_or_ok:
  "(\<exists>m. js_match (js_or d (JStr [])) re = Inr m) = (truthy d \<longrightarrow> is_str d)"
  by (cases d) (auto simp: js_match_def js_or_def is_str_def)

lemma bills_loop_ok:
  "(\<exists>chg'. bills_loop u a sid vendors coa cust bs chg = Inr chg') = list_all (bill_ok a) bs"
proof (induction bs arbitrary: chg)
  case Nil
  then show ?case by simp
next
  case (Cons b bs)
  show ?case
  proof (cases "getDocumentPages a (bill_id b)")
    case (Inl e)
    then show ?thesis by (simp add: bill_ok_def)
  next
    case pages: (Inr n)
    show ?thesis
    proof (cases "js_match (js_or (bill_description b) (JStr [])) submitterRegex")
      case (Inl e)
      then have "\<not> (truthy (bill_description b) \<longrightarrow> is_str (bill_description b))"
        using js_match_or_ok [of "bill_description b" submitterRegex] by simp
      with pages Inl show ?thesis by (simp add: bill_ok_def)
    next
      case sm: (Inr m)
      then have d: "truthy (bill_description b) \<longrightarrow> is_str (bill_description b)"
        using js_match_or_ok [of "bill_description b" submitterRegex] by auto
      let ?vendor = "case map_get vendors (vendorId b) of None \<Rightarrow> [] | Some v \<Rightarrow> v"
      show ?thesis
      proof (cases "items_loop u coa cust b (docs_of sid (bill_id b) n) m ?vendor
                      (billLineItems b) chg")
        case (Inl e)
        then have "\<not> list_all (\<lambda>it. is_str (description it)) (billLineItems b)"
          using items_loop_ok [of u coa cust b "docs_of sid (bill_id b) n" m ?vendor
              "billLineItems b" chg] by simp
        with pages sm Inl show ?thesis by (simp add: bill_ok_def)
      next
        case (Inr c1)
        then have "list_all (\<lambda>it. is_str (description it)) (billLineItems b)"
          using items_loop_ok [of u coa cust b "docs_of sid (bill_id b) n" m ?vendor
              "billLineItems b" chg] by auto
        with pages sm Inr d Cons [of c1] show ?thesis by (simp add: bill_ok_def)
      qed
    qed
  qed
qed

text \<open>When the ledger phase of a run succeeds.\<close>

lemma ledger_ok_iff:
  "ledger_ok u a =
     (\<exists>sid vs cs ps bills.
        primaryOrgLogin a = Inr sid \<and> listActive a (js ''Vendor'') = Inr vs
      \<and> listActive a (js ''ChartOfAccount'') = Inr cs \<and> listActive a (js ''Customer'') = Inr ps
      \<and> listActiveBill a = Inr bills \<and> list_all (bill_ok a) bills)"
proof -
  have ok: "ledger_ok u a = (\<exists>chg. build_changes u a = Inr chg)"
    by (cases "build_changes u a") (simp_all add: ledger_ok_def)
  show ?thesis
  proof (cases "primaryOrgLogin a")
    case (Inl e)
    then show ?thesis by (simp add: ok build_changes_def)
  next
    case sid: (Inr sid)
    show ?thesis
    proof (cases "listActive a (js ''Vendor'')")
      case (Inl e)
      then show ?thesis by (simp add: ok build_changes_def sid getEntityData_def)
    next
      case vs: (Inr vs)
      show ?thesis
      proof (cases "listActive a (js ''ChartOfAccount'')")
        case (Inl e)
        then show ?thesis
          by (simp add: ok build_changes_def sid vs getEntityData_def getNames_def)
      next
        case cs: (Inr cs)
        show ?thesis
        proof (cases "listActive a (js ''Customer'')")
          case (Inl e)
          then show ?thesis
            by (simp add: ok build_changes_def sid vs cs getEntityData_def getNames_def)
        next
          case ps: (Inr ps)
          show ?thesis
          proof (cases "listActiveBill a")
            case (Inl e)
            then show ?thesis
              by (simp add: ok build_changes_def sid vs cs ps getEntityData_def getNames_def)
          next
            case (Inr bills)
            then show ?thesis
              by (simp add: ok build_changes_def sid vs cs ps getEntityData_def getNames_def
                  bills_loop_ok)
          qed
        qed
      qed
    qed
  qed
qed

lemma one_page_ledger_ok: "ledger_ok u (one_page_api sid)"
  by (simp add: ledger_ok_iff one_page_api_def one_bill_def one_item_def bill_ok_def is_str_def)

lemma item_fields_docs:
  "obj_get (item_fields u coa cust b docs sm it iv) (js ''Supporting Documents'') = docs"
  by (simp add: item_fields_def obj_get_literal primaryBillComId_def
      bcid_neq billComIdFieldName_neq_suffix billComIdFieldName_neq_suffix' js_Cons js_Nil)

lemma not_merchant_x: "regex_match merchantRegex (js ''x'') = None"
  by code_simp

lemma not_submitted_empty: "regex_match submitterRegex [] = None"
  by code_simp

lemma one_page_changes:
  "build_changes u (one_page_api sid) =
     Inr [(js ''i1'',
           item_fields u [] [] one_bill (docs_of sid (js ''b1'') 1) None one_item [])]"
  by (simp add: build_changes_def one_page_api_def getEntityData_def getNames_def
      js_match_def js_or_def itemVendor_of_def item_entry_def not_merchant_x
      not_submitted_empty map_get_def)
    (simp add: one_bill_def one_item_def js_match_def not_merchant_x itemVendor_of_def
      item_entry_def)

lemma empty_base_never_fails: "never_fails empty_base"
  by (simp add: never_fails_def empty_base_def)

lemma docs_differ: "docs_of (js ''S1'') bid 1 \<noteq> docs_of (js ''S2'') bid 1"
  by (simp add: docs_of_def) (simp add: js_def)

text \<open>Two runs over the same ledger data, with their own document links.\<close>

lemma update_rel:
  assumes "list_all2 (\<lambda>p q. fst p = fst q \<and> R (snd p) (snd q)) c1 c2" and "R v1 v2"
  shows "list_all2 (\<lambda>p q. fst p = fst q \<and> R (snd p) (snd q))
           (AList.update k v1 c1) (AList.update k v2 c2)"
  using assms
  by (induction c1 c2 rule: list_all2_induct) auto

lemma items_loop_rel:
  assumes "items_loop u coa cust b docs1 sm vendor its c1 = Inr c1'"
    and "list_all2 (\<lambda>p q. fst p = fst q \<and> R (snd p) (snd q)) c1 c2"
    and "\<And>it iv. R (item_fields u coa cust b docs1 sm it iv)
                   (item_fields u coa cust b docs2 sm it iv)"
  shows "\<exists>c2'. items_loop u coa cust b docs2 sm vendor its c2 = Inr c2'
           \<and> list_all2 (\<lambda>p q. fst p = fst q \<and> R (snd p) (snd q)) c1' c2'"
  using assms(1,2)
proof (induction its arbitrary: c1 c2)
  case Nil
  then show ?case by simp
next
  case (Cons it its)
  from Cons.prems(1) obtain iv where iv: "itemVendor_of it vendor = Inr iv"
    and rest: "items_loop u coa cust b docs1 sm vendor its
        (AList.update (item_id it) (item_fields u coa cust b docs1 sm it iv) c1) = Inr c1'"
    by (auto simp: item_entry_def split: sum.splits)
  have "list_all2 (\<lambda>p q. fst p = fst q \<and> R (snd p) (snd q))
      (AList.update (item_id it) (item_fields u coa cust b docs1 sm it iv) c1)
      (AList.update (item_id it) (item_fields u coa cust b docs2 sm it iv) c2)"
    by (rule update_rel [OF Cons.prems(2) assms(3)])
  from Cons.IH [OF rest this] show ?case
    by (simp add: item_entry_def iv)
qed

lemma bills_loop_rel:
  assumes "bills_loop u a1 sid1 vendors coa cust bs c1 = Inr c1'"
    and "list_all2 (\<lambda>p q. fst p = fst q \<and> R (snd p) (snd q)) c1 c2"
    and "getDocumentPages a2 = getDocumentPages a1"
    and "\<And>b n sm it iv. R (item_fields u coa cust b (docs_of sid1 (bill_id b) n) sm it iv)
                   (item_fields u coa cust b (docs_of sid2 (bill_id b) n) sm it iv)"
  shows "\<exists>c2'. bills_loop u a2 sid2 vendors coa cust bs c2 = Inr c2'
           \<and> list_all2 (\<lambda>p q. fst p = fst q \<and> R (snd p) (snd q)) c1' c2'"
  using assms(1,2)
proof (induction bs arbitrary: c1 c2)
  case Nil
  then show ?case by simp
next
  case (Cons b bs)
  from Cons.prems(1) obtain n sm m1 where
    n: "getDocumentPages a1 (bill_id b) = Inr n"
    and sm: "js_match (js_or (bill_description b) (JStr [])) submitterRegex = Inr sm"
    and m1: "items_loop u coa cust b (docs_of sid1 (bill_id b) n) sm
           (case map_get vendors (vendorId b) of None \<Rightarrow> [] | Some v \<Rightarrow> v)
           (billLineItems b) c1 = Inr m1"
    and rest: "bills_loop u a1 sid1 vendors coa cust bs m1 = Inr c1'"
    by (auto split: sum.splits)
  from items_loop_rel [OF m1 Cons.prems(2) assms(4)]
  obtain m2 where m2: "items_loop u coa cust b (docs_of sid2 (bill_id b) n) sm
           (case map_get vendors (vendorId b) of None \<Rightarrow> [] | Some v \<Rightarrow> v)
           (billLineItems b) c2 = Inr m2"
    and rel: "list_all2 (\<lambda>p q. fst p = fst q \<and> R (snd p) (snd q)) m1 m2"
    by (elim exE conjE)
  from Cons.IH [OF rest rel] show ?case
    by (simp add: assms(3) n sm m2)
qed

lemma item_fields_other_docs:
  "f \<noteq> js ''Supporting Documents'' \<Longrightarrow>
   obj_get (item_fields u coa cust b docs1 sm it iv) f
     = obj_get (item_fields u coa cust b docs2 sm it iv) f"
  by (simp add: item_fields_def obj_get_literal)

lemma build_changes_rel:
  assumes "build_changes u a1 = Inr c1"
    and "primaryOrgLogin a2 = Inr sid2"
    and "listActive a2 = listActive a1"
    and "listActiveBill a2 = listActiveBill a1"
    and "getDocumentPages a2 = getDocumentPages a1"
  shows "\<exists>c2. build_changes u a2 = Inr c2
    \<and> list_all2 (\<lambda>p q. fst p = fst q
          \<and> (\<forall>f. f \<noteq> js ''Supporting Documents'' \<longrightarrow> obj_get (snd p) f = obj_get (snd q) f))
        c1 c2"
proof -
  from assms(1) obtain sid1 vendors coa cust bills where
    l: "primaryOrgLogin a1 = Inr sid1"
    and v: "getEntityData a1 (js ''Vendor'') vendorData = Inr vendors"
    and c: "getNames a1 (js ''ChartOfAccount'') = Inr coa"
    and p: "getNames a1 (js ''Customer'') = Inr cust"
    and b: "listActiveBill a1 = Inr bills"
    and bl: "bills_loop u a1 sid1 vendors coa cust bills [] = Inr c1"
    by (auto simp: build_changes_def split: sum.splits)
  have v2: "getEntityData a2 (js ''Vendor'') vendorData = Inr vendors"
    using v by (simp add: getEntityData_def assms(3))
  have c2: "getNames a2 (js ''ChartOfAccount'') = Inr coa"
    using c by (simp add: getNames_def getEntityData_def assms(3))
  have p2: "getNames a2 (js ''Customer'') = Inr cust"
    using p by (simp add: getNames_def getEntityData_def assms(3))
  have "\<exists>c2. bills_loop u a2 sid2 vendors coa cust bills [] = Inr c2
    \<and> list_all2 (\<lambda>p q. fst p = fst q
          \<and> (\<forall>f. f \<noteq> js ''Supporting Documents'' \<longrightarrow> obj_get (snd p) f = obj_get (snd q) f))
        c1 c2"
    by (rule bills_loop_rel [OF bl _ assms(5)]) (simp_all add: item_fields_other_docs)
  then show ?thesis
    by (simp add: build_changes_def assms(2) v2 c2 p2 assms(4) b)
qed

lemma map_delete_rel:
  assumes "list_all2 (\<lambda>p q. fst p = fst q \<and> R (snd p) (snd q)) c1 c2"
  shows "list_all2 (\<lambda>p q. fst p = fst q \<and> R (snd p) (snd q))
           (map_delete c1 v) (map_delete c2 v)"
proof (cases v)
  case (JStr k)
  have "list_all2 (\<lambda>p q. fst p = fst q \<and> R (snd p) (snd q))
           (AList.delete k c1) (AList.delete k c2)"
    using assms by (induction c1 c2 rule: list_all2_induct) auto
  then show ?thesis by (simp add: map_delete_def JStr)
qed (simp_all add: map_delete_def assms)

lemma map_get_rel:
  assumes "list_all2 (\<lambda>p q. fst p = fst q \<and> R (snd p) (snd q)) c1 c2"
  shows "rel_option R (map_get c1 v) (map_get c2 v)"
proof (cases v)
  case (JStr k)
  have "rel_option R (map_of c1 k) (map_of c2 k)"
    using assms by (induction c1 c2 rule: list_all2_induct) auto
  then show ?thesis by (simp add: JStr)
qed (simp_all add: map_get_def)

lemma staged_rel:
  assumes "list_all2 (\<lambda>p q. fst p = fst q \<and> R (snd p) (snd q)) c1 c2"
    and "R [(js ''Active'', JBool False)] [(js ''Active'', JBool False)]"
  shows "list_all2 (\<lambda>x y. R (ufields x) (ufields y)) (staged u c1 rs) (staged u c2 rs)
    \<and> list_all2 (\<lambda>p q. fst p = fst q \<and> R (snd p) (snd q))
        (remaining u c1 rs) (remaining u c2 rs)"
  using assms(1)
proof (induction rs arbitrary: c1 c2)
  case Nil
  then show ?case by (simp add: remaining_def)
next
  case (Cons r rs)
  note d = map_delete_rel [OF Cons.prems, of "rkey u r"]
  have "rel_option R (map_get c1 (rkey u r)) (map_get c2 (rkey u r))"
    by (rule map_get_rel [OF Cons.prems])
  then have "R (case map_get c1 (rkey u r) of Some fs \<Rightarrow> fs
                | None \<Rightarrow> [(js ''Active'', JBool False)])
      (case map_get c2 (rkey u r) of Some fs \<Rightarrow> fs | None \<Rightarrow> [(js ''Active'', JBool False)])"
    using assms(2) by (auto simp: option_rel_Some1 split: option.splits)
  with Cons.IH [OF d] show ?case
    by (simp add: remaining_Cons)
qed

lemma staged_fields_distinct:
  assumes "\<And>k fs. map_of chg k = Some fs \<Longrightarrow> distinct (map fst fs)" and "i < length rs"
  shows "distinct (map fst (ufields (staged u chg rs ! i)))"
proof (cases "map_get (remaining u chg (take i rs)) (rkey u (rs ! i))")
  case None
  then show ?thesis using assms(2) by (simp add: staged_nth)
next
  case (Some fs)
  from map_get_Some_JStr [OF Some] obtain k where
    "map_of (remaining u chg (take i rs)) k = Some fs"
    by (elim exE conjE)
  then have "map_of chg k = Some fs"
    by (simp add: map_of_remaining split: if_splits)
  then have "distinct (map fst fs)" by (rule assms(1))
  then show ?thesis using assms(2) Some by (simp add: staged_nth)
qed

lemma sent_member:
  "distinct (map fst fs) \<Longrightarrow> (f, v) \<in> set (sent fs) \<Longrightarrow> obj_get fs f = v \<and> v \<noteq> JUndefined"
  by (auto simp: sent_def obj_get_def)

section \<open>The record-store client\<close>

lemma chunks_single: "chunks 10 [x] = [[x]]"
  by (simp add: chunks.simps)

lemma first_request_rejected:
  "outage b (length (requests b)) = Some err \<Longrightarrow>
   airtable_request q b = (Some err, b\<lparr>requests := requests b @ [q]\<rparr>)"
  by (simp add: airtable_request_def)

lemma chunks_nonempty: "xs \<noteq> [] \<Longrightarrow> \<exists>c cs. chunks 10 xs = c # cs"
  by (subst chunks.simps) simp

lemma update_single_ok:
  "never_fails b \<Longrightarrow>
   update T [x] b =
     (Inr [()], b\<lparr>requests := requests b @ [Update T [x]],
                 tables := (tables b)(T := upd_rows [x] (tables b T))\<rparr>)"
  by (simp add: update_ok chunks_single)

lemma down_base_outage:
  "outage down_base (length (requests down_base)) = Some (Rejected (js ''503''))"
  by (simp add: down_base_def sample_base_def)

lemma down_base_requests: "requests down_base = []"
  by (simp add: down_base_def sample_base_def)

section \<open>The sample run\<close>

lemma sample_never_fails: "never_fails sample_base"
  by (simp add: never_fails_def sample_base_def)

lemma sample_ledger_ok: "ledger_ok sample_utils (sample_api sid)"
  by (simp add: ledger_ok_iff sample_api_def sample_bill_def sample_item1_def sample_item2_def
      bill_ok_def is_str_def js_def)

lemma sample_rids: "distinct (map rid (tables sample_base BILL_REPORTING_TABLE))"
  by code_simp

lemma sample_keys:
  "fst ` set (the_changes sample_utils (sample_api sid)) = {js ''i1'', js ''i2''}"
  unfolding build_changes_keys [OF ledger_ok_changes [OF sample_ledger_ok]]
  by (simp add: ledger_items_def sample_api_def sample_bill_def sample_item1_def
      sample_item2_def insert_commute)

section \<open>The matcher and the merchant pattern\<close>

lemma first_some_SomeD: "first_some f xs = Some r \<Longrightarrow> \<exists>x \<in> set xs. f x = Some r"
  by (induction xs) (auto split: option.splits)

lemma first_some_NoneI: "(\<And>x. x \<in> set xs \<Longrightarrow> f x = None) \<Longrightarrow> first_some f xs = None"
  by (induction xs) auto

lemma first_some_not_None: "x \<in> set xs \<Longrightarrow> f x \<noteq> None \<Longrightarrow> first_some f xs \<noteq> None"
  by (induction xs) (auto split: option.splits)

lemma first_some_hd: "f x = Some r \<Longrightarrow> first_some f (x # xs) = Some r"
  by simp

lemma valid_group_prefix:
  assumes "1 \<le> k" and "k \<le> length (takeWhile (\<lambda>c. \<not> line_terminator c) s)"
  shows "valid_group (take k s)"
proof -
  let ?run = "takeWhile (\<lambda>c. \<not> line_terminator c) s"
  have "take k s = take k ?run"
    using assms(2) by (metis takeWhile_dropWhile_id take_append diff_is_0_eq' take_0 append_Nil2)
  moreover have "list_all (\<lambda>x. \<not> line_terminator x) (take k ?run)"
    by (metis (mono_tags, lifting) list_all_iff in_set_takeD set_takeWhileD)
  moreover have "k \<le> length s"
    using assms(2) length_takeWhile_le [of "\<lambda>c. \<not> line_terminator c" s] by linarith
  ultimately show ?thesis
    using assms(1) by (auto simp: valid_group_def)
qed

lemma run_length_ge:
  assumes "valid_group c"
  shows "length c \<le> length (takeWhile (\<lambda>x. \<not> line_terminator x) (c @ r))"
proof -
  have "takeWhile (\<lambda>x. \<not> line_terminator x) (c @ r)
      = c @ takeWhile (\<lambda>x. \<not> line_terminator x) r"
    using assms by (simp add: valid_group_def list_all_iff takeWhile_append2)
  then show ?thesis by simp
qed

text \<open>What a successful match says about the text, and which texts are matched.\<close>

lemma match_here_sound:
  "match_here ts s = Some caps \<Longrightarrow> fits ts caps \<and> (\<exists>rest. s = fill ts caps @ rest)"
proof (induction ts arbitrary: s caps)
  case Nil
  then show ?case by simp
next
  case (Cons t ts)
  show ?case
  proof (cases t)
    case (Lit l)
    with Cons.prems have l: "take (length l) s = l"
      and m: "match_here ts (drop (length l) s) = Some caps"
      by (simp_all split: if_splits)
    from Cons.IH [OF m] obtain rest where "fits ts caps"
      and "drop (length l) s = fill ts caps @ rest" by blast
    moreover have "s = l @ drop (length l) s"
      using l by (metis append_take_drop_id)
    ultimately show ?thesis using Lit by (metis append.assoc fill.simps(2) fits.simps(2))
  next
    case Cap
    let ?n = "length (takeWhile (\<lambda>c. \<not> line_terminator c) s)"
    from Cons.prems Cap obtain k where k: "k \<in> set (rev [1..<Suc ?n])"
      and fk: "map_option (\<lambda>caps. take k s # caps) (match_here ts (drop k s)) = Some caps"
      using first_some_SomeD
        [of "\<lambda>k. map_option (\<lambda>caps. take k s # caps) (match_here ts (drop k s))"
          "rev [1..<Suc ?n]" caps]
      by auto
    from fk obtain caps' where c: "caps = take k s # caps'"
      and m: "match_here ts (drop k s) = Some caps'"
      by auto
    from Cons.IH [OF m] obtain rest where f: "fits ts caps'"
      and d: "drop k s = fill ts caps' @ rest" by blast
    have v: "valid_group (take k s)"
      using k by (intro valid_group_prefix) auto
    have "s = take k s @ fill ts caps' @ rest"
      using d by (metis append_take_drop_id)
    then show ?thesis using Cap c f v by auto
  qed
qed

lemma match_here_complete:
  "fits ts caps \<Longrightarrow> match_here ts (fill ts caps @ rest) \<noteq> None"
proof (induction ts caps arbitrary: rest rule: fits.induct)
  case (1 caps)
  then show ?case by simp
next
  case (2 l ts caps)
  then show ?case by simp
next
  case (3 ts)
  then show ?case by simp
next
  case (4 ts c caps)
  let ?s = "c @ fill ts caps @ rest"
  let ?n = "length (takeWhile (\<lambda>x. \<not> line_terminator x) ?s)"
  let ?f = "\<lambda>k. map_option (\<lambda>caps. take k ?s # caps) (match_here ts (drop k ?s))"
  from 4 have v: "valid_group c" and f: "fits ts caps" by simp_all
  have "length c \<le> ?n" using run_length_ge [OF v] by simp
  moreover have "1 \<le> length c" using v by (cases c) (simp_all add: valid_group_def)
  ultimately have mem: "length c \<in> set (rev [1..<Suc ?n])" by auto
  have "match_here ts (fill ts caps @ rest) \<noteq> None"
    using 4 f by simp
  then have "?f (length c) \<noteq> None" by simp
  from first_some_not_None [of "length c" "rev [1..<Suc ?n]" ?f, OF mem this]
  show ?case by simp
qed

lemma regex_match_sound:
  assumes "regex_match re s = Some caps"
  shows "fits re caps \<and> (\<exists>pre rest. s = pre @ fill re caps @ rest)"
proof -
  from first_some_SomeD [OF assms [unfolded regex_match_def]]
  obtain i where "match_here re (drop i s) = Some caps"
    by (elim bexE)
  from match_here_sound [OF this] obtain rest where "fits re caps"
    and "drop i s = fill re caps @ rest" by blast
  then have "fits re caps \<and> s = take i s @ fill re caps @ rest"
    by (metis append_take_drop_id)
  then show ?thesis by blast
qed

lemma regex_match_complete:
  assumes "fits re caps"
  shows "regex_match re (pre @ fill re caps @ rest) \<noteq> None"
proof -
  let ?s = "pre @ fill re caps @ rest"
  have "match_here re (drop (length pre) ?s) \<noteq> None"
    using match_here_complete [OF assms] by simp
  moreover have "length pre \<in> set [0..<Suc (length ?s)]" by simp
  ultimately show ?thesis
    unfolding regex_match_def by (rule first_some_not_None [rotated])
qed

lemma regex_match_at_start:
  assumes "fits re caps"
  shows "regex_match re (fill re caps @ rest) = match_here re (fill re caps @ rest)"
proof -
  let ?s = "fill re caps @ rest"
  obtain r where r: "match_here re ?s = Some r"
    using match_here_complete [OF assms, of rest] by auto
  have "[0..<Suc (length ?s)] = 0 # [Suc 0..<Suc (length ?s)]"
    by (rule upt_conv_Cons) simp
  then have "regex_match re ?s
      = first_some (\<lambda>i. match_here re (drop i ?s)) (0 # [Suc 0..<Suc (length ?s)])"
    unfolding regex_match_def by (rule arg_cong)
  also have "\<dots> = Some r"
    by (rule first_some_hd) (simp add: r)
  finally show ?thesis by (simp add: r)
qed

lemma split_unique:
  "x \<notin> set a \<Longrightarrow> x \<notin> set a' \<Longrightarrow> a @ x # r = a' @ x # r' \<Longrightarrow> a = a' \<and> r = r'"
proof (induction a arbitrary: a')
  case Nil
  then show ?case by (cases a') auto
next
  case (Cons y a)
  then show ?case by (cases a') auto
qed

lemma fill_merchant:
  "fill merchantRegex [d, n, a, c, st, z, t] = merchant_text d n a c st z t"
  by (simp add: merchantRegex_def merchant_text_def js_def)

lemma fits_CapD:
  "fits (Cap # ts) caps \<Longrightarrow> \<exists>c cs. caps = c # cs \<and> valid_group c \<and> fits ts cs"
  by (cases caps) auto

lemma fits_merchantD:
  assumes "fits merchantRegex caps"
  shows "\<exists>d n a c st z t. caps = [d, n, a, c, st, z, t]
        \<and> valid_group d \<and> valid_group n \<and> valid_group a \<and> valid_group c
        \<and> valid_group st \<and> valid_group z \<and> valid_group t"
proof -
  let ?nl = "Lit (js [CHR 0x0A])" and ?bar = "Lit (js '' | '')"
  from assms have "fits [Cap, ?nl, Cap, ?nl, Cap, ?nl, Cap, ?bar, Cap, ?bar, Cap, ?nl, Cap] caps"
    by (simp add: merchantRegex_def)
  from fits_CapD [OF this] obtain d c1 where 1: "caps = d # c1" "valid_group d"
    and "fits [Cap, ?nl, Cap, ?nl, Cap, ?bar, Cap, ?bar, Cap, ?nl, Cap] c1"
    by auto
  from fits_CapD [OF this(3)] obtain n c2 where 2: "c1 = n # c2" "valid_group n"
    and "fits [Cap, ?nl, Cap, ?bar, Cap, ?bar, Cap, ?nl, Cap] c2"
    by auto
  from fits_CapD [OF this(3)] obtain a c3 where 3: "c2 = a # c3" "valid_group a"
    and "fits [Cap, ?bar, Cap, ?bar, Cap, ?nl, Cap] c3"
    by auto
  from fits_CapD [OF this(3)] obtain c c4 where 4: "c3 = c # c4" "valid_group c"
    and "fits [Cap, ?bar, Cap, ?nl, Cap] c4"
    by auto
  from fits_CapD [OF this(3)] obtain st c5 where 5: "c4 = st # c5" "valid_group st"
    and "fits [Cap, ?nl, Cap] c5"
    by auto
  from fits_CapD [OF this(3)] obtain z c6 where 6: "c5 = z # c6" "valid_group z"
    and "fits [Cap] c6"
    by auto
  from fits_CapD [OF this(3)] obtain t c7 where 7: "c6 = t # c7" "valid_group t"
    and "fits [] c7"
    by auto
  then have "c7 = []" by simp
  with 1 2 3 4 5 6 7 show ?thesis by simp
qed

lemma fits_merchantI:
  "valid_group d \<Longrightarrow> valid_group n \<Longrightarrow> valid_group a \<Longrightarrow> valid_group c \<Longrightarrow>
   valid_group st \<Longrightarrow> valid_group z \<Longrightarrow> valid_group t \<Longrightarrow>
   fits merchantRegex [d, n, a, c, st, z, t]"
  by (simp add: merchantRegex_def)

lemma valid_group_no_newline: "valid_group c \<Longrightarrow> 0x0A \<notin> set c"
  by (auto simp: valid_group_def list_all_iff line_terminator_def)

lemma bar_split:
  assumes "(0x7C::jschar) \<notin> set c" and "0x7C \<notin> set c'"
    and "c @ 0x20 # 0x7C # 0x20 # r = c' @ 0x20 # 0x7C # 0x20 # r'"
  shows "c = c' \<and> r = r'"
proof -
  have "(c @ [0x20]) @ 0x7C # (0x20 # r) = (c' @ [0x20]) @ 0x7C # (0x20 # r')"
    using assms(3) by simp
  moreover have "(0x7C::jschar) \<notin> set (c @ [0x20])" and "(0x7C::jschar) \<notin> set (c' @ [0x20])"
    using assms(1,2) by simp_all
  ultimately have "c @ [0x20] = c' @ [0x20] \<and> 0x20 # r = 0x20 # r'"
    by (rule split_unique [rotated 2])
  then show ?thesis by simp
qed

lemma no_bar_count:
  "length (filter (\<lambda>x. x = (0x7C::jschar)) (c @ 0x20 # 0x7C # 0x20 # st @ 0x20 # 0x7C # 0x20 # z))
     = 2 + length (filter (\<lambda>x. x = 0x7C) c) + length (filter (\<lambda>x. x = 0x7C) st)
         + length (filter (\<lambda>x. x = 0x7C) z)"
  by simp

lemma filter_none: "x \<notin> set xs \<Longrightarrow> length (filter (\<lambda>y. y = x) xs) = 0"
  by (induction xs) auto

lemma filter_noneD: "length (filter (\<lambda>y. y = x) xs) = 0 \<Longrightarrow> x \<notin> set xs"
  by (induction xs) (auto split: if_splits)

lemma line_unique:
  assumes bars: "(0x7C::jschar) \<notin> set c" "0x7C \<notin> set st" "0x7C \<notin> set z"
    and eq: "c @ 0x20 # 0x7C # 0x20 # st @ 0x20 # 0x7C # 0x20 # z
           = c' @ 0x20 # 0x7C # 0x20 # st' @ 0x20 # 0x7C # 0x20 # z'"
  shows "c = c' \<and> st = st' \<and> z = z'"
proof -
  have "2 + length (filter (\<lambda>x. x = 0x7C) c') + length (filter (\<lambda>x. x = 0x7C) st')
         + length (filter (\<lambda>x. x = 0x7C) z')
      = 2 + length (filter (\<lambda>x. x = 0x7C) c) + length (filter (\<lambda>x. x = 0x7C) st)
         + length (filter (\<lambda>x. x = 0x7C) z)"
    using arg_cong [OF eq, of "\<lambda>l. length (filter (\<lambda>x. x = 0x7C) l)"]
    unfolding no_bar_count by simp
  also have "\<dots> = 2"
    using bars by (simp add: filter_none)
  finally have z: "length (filter (\<lambda>x. x = 0x7C) c') = 0"
    "length (filter (\<lambda>x. x = 0x7C) st') = 0"
    "length (filter (\<lambda>x. x = 0x7C) z') = 0"
    by linarith+
  have bars': "0x7C \<notin> set c'" "0x7C \<notin> set st'" "0x7C \<notin> set z'"
    by (rule filter_noneD [OF z(1)], rule filter_noneD [OF z(2)], rule filter_noneD [OF z(3)])
  from bar_split [OF bars(1) bars'(1) eq]
  have c: "c = c'" and r: "st @ 0x20 # 0x7C # 0x20 # z = st' @ 0x20 # 0x7C # 0x20 # z'"
    by simp_all
  from bar_split [OF bars(2) bars'(2) r] c show ?thesis by simp
qed

lemma merchant_match_exact:
  assumes v: "valid_group d" "valid_group n" "valid_group a" "valid_group c"
      "valid_group st" "valid_group z" "valid_group t"
  shows "\<exists>c' st' z' t'.
      regex_match merchantRegex (merchant_text d n a c st z t) = Some [d, n, a, c', st', z', t']
    \<and> valid_group c' \<and> valid_group st' \<and> valid_group z'
    \<and> c' @ 0x20 # 0x7C # 0x20 # st' @ 0x20 # 0x7C # 0x20 # z'
        = c @ 0x20 # 0x7C # 0x20 # st @ 0x20 # 0x7C # 0x20 # z"
proof -
  note fit = fits_merchantI [OF v]
  have mt: "merchant_text d n a c st z t = fill merchantRegex [d, n, a, c, st, z, t] @ []"
    by (simp add: fill_merchant)
  obtain caps where m: "match_here merchantRegex (merchant_text d n a c st z t) = Some caps"
    using match_here_complete [OF fit, of "[]"] unfolding mt by auto
  have r: "regex_match merchantRegex (merchant_text d n a c st z t) = Some caps"
    using regex_match_at_start [OF fit, of "[]"] m unfolding mt by simp
  from match_here_sound [OF m] obtain rest where f: "fits merchantRegex caps"
    and e: "merchant_text d n a c st z t = fill merchantRegex caps @ rest"
    by blast
  from fits_merchantD [OF f] obtain d' n' a' c' st' z' t' where
    caps: "caps = [d', n', a', c', st', z', t']"
    and v': "valid_group d'" "valid_group n'" "valid_group a'" "valid_group c'"
      "valid_group st'" "valid_group z'" "valid_group t'"
    by (elim exE conjE)
  have e1: "d @ 0x0A # n @ 0x0A # a @ 0x0A #
        (c @ 0x20 # 0x7C # 0x20 # st @ 0x20 # 0x7C # 0x20 # z) @ 0x0A # t
      = d' @ 0x0A # n' @ 0x0A # a' @ 0x0A #
        (c' @ 0x20 # 0x7C # 0x20 # st' @ 0x20 # 0x7C # 0x20 # z') @ 0x0A # (t' @ rest)"
    using e unfolding caps fill_merchant by (simp add: merchant_text_def js_def)
  note nl = valid_group_no_newline
  from split_unique [OF nl [OF v(1)] nl [OF v'(1)] e1]
  have d: "d = d'" and e2: "n @ 0x0A # a @ 0x0A #
        (c @ 0x20 # 0x7C # 0x20 # st @ 0x20 # 0x7C # 0x20 # z) @ 0x0A # t
      = n' @ 0x0A # a' @ 0x0A #
        (c' @ 0x20 # 0x7C # 0x20 # st' @ 0x20 # 0x7C # 0x20 # z') @ 0x0A # (t' @ rest)"
    by simp_all
  from split_unique [OF nl [OF v(2)] nl [OF v'(2)] e2]
  have n: "n = n'" and e3: "a @ 0x0A #
        (c @ 0x20 # 0x7C # 0x20 # st @ 0x20 # 0x7C # 0x20 # z) @ 0x0A # t
      = a' @ 0x0A #
        (c' @ 0x20 # 0x7C # 0x20 # st' @ 0x20 # 0x7C # 0x20 # z') @ 0x0A # (t' @ rest)"
    by simp_all
  from split_unique [OF nl [OF v(3)] nl [OF v'(3)] e3]
  have a: "a = a'" and e4: "(c @ 0x20 # 0x7C # 0x20 # st @ 0x20 # 0x7C # 0x20 # z) @ 0x0A # t
      = (c' @ 0x20 # 0x7C # 0x20 # st' @ 0x20 # 0x7C # 0x20 # z') @ 0x0A # (t' @ rest)"
    by simp_all
  have l: "0x0A \<notin> set (c @ 0x20 # 0x7C # 0x20 # st @ 0x20 # 0x7C # 0x20 # z)"
    using nl [OF v(4)] nl [OF v(5)] nl [OF v(6)] by simp
  have l': "0x0A \<notin> set (c' @ 0x20 # 0x7C # 0x20 # st' @ 0x20 # 0x7C # 0x20 # z')"
    using nl [OF v'(4)] nl [OF v'(5)] nl [OF v'(6)] by simp
  from split_unique [OF l l' e4]
  have "c' @ 0x20 # 0x7C # 0x20 # st' @ 0x20 # 0x7C # 0x20 # z'
      = c @ 0x20 # 0x7C # 0x20 # st @ 0x20 # 0x7C # 0x20 # z"
    by simp
  with d n a r caps v'(4,5,6) show ?thesis by blast
qed

text \<open>A description matches the pattern of the run exactly when the merchant text occurs in it.\<close>

lemma merchant_regex_iff: "(regex_match merchantRegex s \<noteq> None) = has_merchant_text s"
proof
  assume "regex_match merchantRegex s \<noteq> None"
  then obtain caps where "regex_match merchantRegex s = Some caps" by auto
  from regex_match_sound [OF this] obtain pre rest where f: "fits merchantRegex caps"
    and s: "s = pre @ fill merchantRegex caps @ rest" by blast
  from fits_merchantD [OF f] obtain d n a c st z t where
    caps: "caps = [d, n, a, c, st, z, t]"
    and v: "valid_group d" "valid_group n" "valid_group a" "valid_group c"
      "valid_group st" "valid_group z" "valid_group t"
    by (elim exE conjE)
  have "s = pre @ merchant_text d n a c st z t @ rest"
    using s by (simp add: caps fill_merchant)
  with v show "has_merchant_text s"
    unfolding has_merchant_text_def by (intro exI conjI)
next
  assume "has_merchant_text s"
  then obtain pre d n a c st z t post where
    v: "valid_group d" "valid_group n" "valid_group a" "valid_group c"
      "valid_group st" "valid_group z" "valid_group t"
    and s: "s = pre @ merchant_text d n a c st z t @ post"
    unfolding has_merchant_text_def by (elim exE conjE)
  show "regex_match merchantRegex s \<noteq> None"
    unfolding s fill_merchant [symmetric]
    by (rule regex_match_complete [OF fits_merchantI [OF v]])
qed

lemmas name_neqs = bcid_neq billComIdFieldName_neq_suffix billComIdFieldName_neq_suffix'
  js_Cons js_Nil

lemma item_fields_vendor:
  "obj_get (item_fields u coa cust b docs sm it iv) (js ''Expense Date'')
     = js_or (obj_get iv (js ''date'')) (invoiceDate b)"
  "obj_get (item_fields u coa cust b docs sm it iv) (js ''Vendor Name'') = obj_get iv (js ''name'')"
  "obj_get (item_fields u coa cust b docs sm it iv) (js ''Vendor Address'')
     = obj_get iv (js ''address'')"
  "obj_get (item_fields u coa cust b docs sm it iv) (js ''Vendor City'') = obj_get iv (js ''city'')"
  "obj_get (item_fields u coa cust b docs sm it iv) (js ''Vendor State'')
     = obj_get iv (js ''state'')"
  "obj_get (item_fields u coa cust b docs sm it iv) (js ''Vendor Zip Code'')
     = obj_get iv (js ''zip'')"
  by (simp_all add: item_fields_def obj_get_literal primaryBillComId_def name_neqs)

lemma groups_lookup:
  "obj_get (obj_literal (zip merchantGroupNames [JStr d, JStr n, JStr a, JStr c, JStr st, JStr z, JStr t])) (js ''date'')
     = JStr d"
  "obj_get (obj_literal (zip merchantGroupNames [JStr d, JStr n, JStr a, JStr c, JStr st, JStr z, JStr t])) (js ''name'')
     = JStr n"
  "obj_get (obj_literal (zip merchantGroupNames [JStr d, JStr n, JStr a, JStr c, JStr st, JStr z, JStr t])) (js ''address'')
     = JStr a"
  "obj_get (obj_literal (zip merchantGroupNames [JStr d, JStr n, JStr a, JStr c, JStr st, JStr z, JStr t])) (js ''city'')
     = JStr c"
  "obj_get (obj_literal (zip merchantGroupNames [JStr d, JStr n, JStr a, JStr c, JStr st, JStr z, JStr t])) (js ''state'')
     = JStr st"
  "obj_get (obj_literal (zip merchantGroupNames [JStr d, JStr n, JStr a, JStr c, JStr st, JStr z, JStr t])) (js ''zip'')
     = JStr z"
  by (simp_all add: merchantGroupNames_def obj_get_literal js_Cons js_Nil)

lemma vendorData_lookup:
  "obj_get (vendorData e) (js ''date'') = JUndefined"
  "obj_get (vendorData e) (js ''name'') = obj_get (props e) (js ''name'')"
  "obj_get (vendorData e) (js ''address'') = obj_get (props e) (js ''address1'')"
  "obj_get (vendorData e) (js ''city'') = obj_get (props e) (js ''addressCity'')"
  "obj_get (vendorData e) (js ''state'') = obj_get (props e) (js ''addressState'')"
  "obj_get (vendorData e) (js ''zip'') = obj_get (props e) (js ''addressZip'')"
  by (simp_all add: vendorData_def obj_get_literal js_Cons js_Nil)

lemma no_vendor_lookup: "obj_get [] k = JUndefined"
  by (simp add: obj_get_def)

section \<open>Rows whose line item is gone\<close>

text \<open>
  C2. Let the record store answer every request, the ledger phase succeed and the row ids
  of the mirror table be distinct. For a mirror row (at position \<open>i\<close>) whose key is not
  the id of any line item of the active ledger fetch, the run completes, the update staged
  for the row has the field set \<open>{Active: false}\<close> exactly, and in the table after the run
  the row has \<open>Active: false\<close> and every other field as before.
\<close>

theorem absent_row_deactivated:
  assumes "never_fails b" and "ledger_ok u a"
    and "distinct (map rid (tables b BILL_REPORTING_TABLE))"
    and "i < length (tables b BILL_REPORTING_TABLE)"
    and "rkey u (tables b BILL_REPORTING_TABLE ! i) \<notin> JStr ` item_id ` set (ledger_items a)"
  shows "fst (main u a b) = Inr ()
    \<and> updates (snd (main u a b)) ! i =
        \<lparr>uid = rid (tables b BILL_REPORTING_TABLE ! i),
         ufields = [(js ''Active'', JBool False)]\<rparr>
    \<and> rid (tables (snd (main u a b)) BILL_REPORTING_TABLE ! i)
        = rid (tables b BILL_REPORTING_TABLE ! i)
    \<and> obj_get (rfields (tables (snd (main u a b)) BILL_REPORTING_TABLE ! i)) (js ''Active'')
        = JBool False
    \<and> (\<forall>f. f \<noteq> js ''Active'' \<longrightarrow>
          obj_get (rfields (tables (snd (main u a b)) BILL_REPORTING_TABLE ! i)) f
            = obj_get (rfields (tables b BILL_REPORTING_TABLE ! i)) f)"
proof -
  let ?rows = "tables b BILL_REPORTING_TABLE"
  have keys: "fst ` set (the_changes u a) = item_id ` set (ledger_items a)"
    by (rule build_changes_keys [OF ledger_ok_changes [OF assms(2)]])
  have "map_get (the_changes u a) (rkey u (?rows ! i)) = None"
  proof (cases "map_get (the_changes u a) (rkey u (?rows ! i))")
    case None
    then show ?thesis .
  next
    case (Some fs)
    from map_get_Some_JStr [OF Some]
    obtain k where k: "rkey u (?rows ! i) = JStr k" and m: "map_of (the_changes u a) k = Some fs"
      by blast
    have "k \<in> item_id ` set (ledger_items a)"
      using map_of_Some_in_keys [OF m] unfolding keys .
    then have "rkey u (?rows ! i) \<in> JStr ` item_id ` set (ledger_items a)"
      unfolding k by (rule imageI)
    with assms(5) show ?thesis by simp
  qed
  then have st: "updates (snd (main u a b)) ! i =
      \<lparr>uid = rid (?rows ! i), ufields = [(js ''Active'', JBool False)]\<rparr>"
    using staged_absent [OF assms(4)] main_final(2) [OF assms(1,2)] by simp
  have fin: "tables (snd (main u a b)) BILL_REPORTING_TABLE ! i =
      (?rows ! i)\<lparr>rfields := AList.merge (rfields (?rows ! i)) [(js ''Active'', JBool False)]\<rparr>"
    using final_existing_row [OF assms(1-4)] st by simp
  have "rid (tables (snd (main u a b)) BILL_REPORTING_TABLE ! i) = rid (?rows ! i)"
    by (simp add: fin)
  moreover have "obj_get (rfields (tables (snd (main u a b)) BILL_REPORTING_TABLE ! i))
      (js ''Active'') = JBool False"
    by (simp add: fin obj_get_update)
  moreover have "\<forall>f. f \<noteq> js ''Active'' \<longrightarrow>
      obj_get (rfields (tables (snd (main u a b)) BILL_REPORTING_TABLE ! i)) f
        = obj_get (rfields (?rows ! i)) f"
    by (simp add: fin obj_get_update)
  ultimately show ?thesis
    using main_final(1) [OF assms(1,2)] st by blast
qed

theorem absent_row_deactivated_witness:
  "never_fails sample_base
   \<and> ledger_ok sample_utils (sample_api (js ''S1''))
   \<and> distinct (map rid (tables sample_base BILL_REPORTING_TABLE))
   \<and> 1 < length (tables sample_base BILL_REPORTING_TABLE)
   \<and> rkey sample_utils (tables sample_base BILL_REPORTING_TABLE ! 1)
        \<notin> JStr ` item_id ` set (ledger_items (sample_api (js ''S1'')))
   \<and> updates (snd (main sample_utils (sample_api (js ''S1'')) sample_base)) ! 1 =
        \<lparr>uid = rid (tables sample_base BILL_REPORTING_TABLE ! 1),
         ufields = [(js ''Active'', JBool False)]\<rparr>
   \<and> obj_get (rfields (tables (snd (main sample_utils (sample_api (js ''S1'')) sample_base))
          BILL_REPORTING_TABLE ! 1)) (js ''Active'') = JBool False"
proof -
  have h4: "1 < length (tables sample_base BILL_REPORTING_TABLE)"
    by code_simp
  have h5: "rkey sample_utils (tables sample_base BILL_REPORTING_TABLE ! 1)
      \<notin> JStr ` item_id ` set (ledger_items (sample_api (js ''S1'')))"
    by code_simp
  note c = absent_row_deactivated [OF sample_never_fails sample_ledger_ok sample_rids h4 h5]
  show ?thesis
    using sample_never_fails sample_ledger_ok sample_rids h4 h5 c by blast
qed

section \<open>Mirror rows that share a key\<close>

text \<open>
  C10. Let the record store answer every request and the ledger phase succeed. If two rows
  of the mirror table, at positions \<open>i < j\<close>, have the same key \<open>k\<close>, the row at \<open>i\<close>
  is the first with that key in the stream, and \<open>k\<close> is a key of the Changes Map, then
  the run completes, the update staged for the first row carries the full field set of
  the map entry, the update staged for the later row is \<open>{Active: false}\<close> only, and the
  entry is gone from the map, so no row is created for \<open>k\<close>. When the row ids of the
  table are distinct, so that an update reaches the one row it names, the table after the
  run has at \<open>i\<close> the first row with the fields sent for the entry written over its own,
  and at \<open>j\<close> the later row with \<open>Active: false\<close> and every other field as before.
\<close>

theorem duplicate_key_rows:
  assumes "never_fails b" and "ledger_ok u a"
    and "i < j" and "j < length (tables b BILL_REPORTING_TABLE)"
    and "rkey u (tables b BILL_REPORTING_TABLE ! i) = JStr k"
    and "rkey u (tables b BILL_REPORTING_TABLE ! j) = JStr k"
    and "\<forall>r \<in> set (take i (tables b BILL_REPORTING_TABLE)). rkey u r \<noteq> JStr k"
    and "k \<in> fst ` set (the_changes u a)"
  shows "fst (main u a b) = Inr ()
    \<and> (\<exists>fs. map_of (the_changes u a) k = Some fs
          \<and> updates (snd (main u a b)) ! i =
              \<lparr>uid = rid (tables b BILL_REPORTING_TABLE ! i), ufields = fs\<rparr>
          \<and> (distinct (map rid (tables b BILL_REPORTING_TABLE)) \<longrightarrow>
               tables (snd (main u a b)) BILL_REPORTING_TABLE ! i =
                 (tables b BILL_REPORTING_TABLE ! i)
                   \<lparr>rfields := AList.merge (rfields (tables b BILL_REPORTING_TABLE ! i))
                                 (sent fs)\<rparr>
             \<and> (\<forall>f. obj_get (rfields (tables (snd (main u a b)) BILL_REPORTING_TABLE ! i)) f =
                     (if obj_get fs f = JUndefined
                      then obj_get (rfields (tables b BILL_REPORTING_TABLE ! i)) f
                      else obj_get fs f))))
    \<and> updates (snd (main u a b)) ! j =
        \<lparr>uid = rid (tables b BILL_REPORTING_TABLE ! j),
         ufields = [(js ''Active'', JBool False)]\<rparr>
    \<and> (distinct (map rid (tables b BILL_REPORTING_TABLE)) \<longrightarrow>
          rid (tables (snd (main u a b)) BILL_REPORTING_TABLE ! j)
            = rid (tables b BILL_REPORTING_TABLE ! j)
        \<and> obj_get (rfields (tables (snd (main u a b)) BILL_REPORTING_TABLE ! j)) (js ''Active'')
            = JBool False
        \<and> (\<forall>f. f \<noteq> js ''Active'' \<longrightarrow>
              obj_get (rfields (tables (snd (main u a b)) BILL_REPORTING_TABLE ! j)) f
                = obj_get (rfields (tables b BILL_REPORTING_TABLE ! j)) f))
    \<and> k \<notin> fst ` set (changes (snd (main u a b)))"
proof -
  let ?rows = "tables b BILL_REPORTING_TABLE"
  let ?final = "tables (snd (main u a b)) BILL_REPORTING_TABLE"
  from in_keys_map_of [OF assms(8)] obtain fs where fs: "map_of (the_changes u a) k = Some fs"
    by (elim exE)
  have dfs: "distinct (map fst fs)"
    by (rule build_changes_distinct_fields [OF ledger_ok_changes [OF assms(2)] fs])
  have i: "i < length ?rows" using assms(3,4) by simp
  have first: "updates (snd (main u a b)) ! i = \<lparr>uid = rid (?rows ! i), ufields = fs\<rparr>"
    using staged_first [OF i assms(5) fs assms(7)] main_final(2) [OF assms(1,2)] by simp
  have later: "updates (snd (main u a b)) ! j =
      \<lparr>uid = rid (?rows ! j), ufields = [(js ''Active'', JBool False)]\<rparr>"
    using staged_later [OF assms(4) assms(6) assms(3) assms(5)] main_final(2) [OF assms(1,2)]
    by simp
  have "JStr k \<in> rkey u ` set ?rows"
    using assms(4,6) by (metis image_eqI nth_mem)
  then have "map_of (changes (snd (main u a b))) k = None"
    by (simp add: main_final(3) [OF assms(1,2)] map_of_remaining)
  then have gone: "k \<notin> fst ` set (changes (snd (main u a b)))"
    by (simp add: map_of_eq_None_iff)
  have row_i: "?final ! i = (?rows ! i)\<lparr>rfields := AList.merge (rfields (?rows ! i)) (sent fs)\<rparr>
      \<and> (\<forall>f. obj_get (rfields (?final ! i)) f =
             (if obj_get fs f = JUndefined then obj_get (rfields (?rows ! i)) f
              else obj_get fs f))"
    if d: "distinct (map rid ?rows)"
  proof -
    have eq: "?final ! i = (?rows ! i)\<lparr>rfields := AList.merge (rfields (?rows ! i)) (sent fs)\<rparr>"
      using final_existing_row [OF assms(1,2) d i] first by simp
    show ?thesis
      by (simp add: eq obj_get_merge_sent [OF dfs])
  qed
  have row_j: "rid (?final ! j) = rid (?rows ! j)
      \<and> obj_get (rfields (?final ! j)) (js ''Active'') = JBool False
      \<and> (\<forall>f. f \<noteq> js ''Active'' \<longrightarrow>
            obj_get (rfields (?final ! j)) f = obj_get (rfields (?rows ! j)) f)"
    if d: "distinct (map rid ?rows)"
  proof -
    have eq: "?final ! j =
        (?rows ! j)\<lparr>rfields := AList.merge (rfields (?rows ! j)) [(js ''Active'', JBool False)]\<rparr>"
      using final_existing_row [OF assms(1,2) d assms(4)] later by simp
    show ?thesis
      by (simp add: eq obj_get_update)
  qed
  have "\<exists>fs. map_of (the_changes u a) k = Some fs
      \<and> updates (snd (main u a b)) ! i = \<lparr>uid = rid (?rows ! i), ufields = fs\<rparr>
      \<and> (distinct (map rid ?rows) \<longrightarrow>
           ?final ! i = (?rows ! i)\<lparr>rfields := AList.merge (rfields (?rows ! i)) (sent fs)\<rparr>
         \<and> (\<forall>f. obj_get (rfields (?final ! i)) f =
                 (if obj_get fs f = JUndefined then obj_get (rfields (?rows ! i)) f
                  else obj_get fs f)))"
  proof (intro exI conjI impI)
    show "map_of (the_changes u a) k = Some fs" by (rule fs)
    show "updates (snd (main u a b)) ! i = \<lparr>uid = rid (?rows ! i), ufields = fs\<rparr>"
      by (rule first)
  next
    assume d: "distinct (map rid ?rows)"
    show "?final ! i = (?rows ! i)\<lparr>rfields := AList.merge (rfields (?rows ! i)) (sent fs)\<rparr>"
      using row_i [OF d] by (rule conjunct1)
  next
    assume d: "distinct (map rid ?rows)"
    show "\<forall>f. obj_get (rfields (?final ! i)) f =
             (if obj_get fs f = JUndefined then obj_get (rfields (?rows ! i)) f
              else obj_get fs f)"
      using row_i [OF d] by (rule conjunct2)
  qed
  moreover note main_final(1) [OF assms(1,2)] later gone
  moreover have "distinct (map rid ?rows) \<longrightarrow>
        rid (?final ! j) = rid (?rows ! j)
      \<and> obj_get (rfields (?final ! j)) (js ''Active'') = JBool False
      \<and> (\<forall>f. f \<noteq> js ''Active'' \<longrightarrow>
            obj_get (rfields (?final ! j)) f = obj_get (rfields (?rows ! j)) f)"
    using row_j by (intro impI)
  ultimately show ?thesis
    by (intro conjI)
qed

theorem duplicate_key_rows_witness:
  "never_fails sample_base
   \<and> ledger_ok sample_utils (sample_api (js ''S1''))
   \<and> (0::nat) < 2
   \<and> 2 < length (tables sample_base BILL_REPORTING_TABLE)
   \<and> rkey sample_utils (tables sample_base BILL_REPORTING_TABLE ! 0) = JStr (js ''i2'')
   \<and> rkey sample_utils (tables sample_base BILL_REPORTING_TABLE ! 2) = JStr (js ''i2'')
   \<and> take 0 (tables sample_base BILL_REPORTING_TABLE) = []
   \<and> js ''i2'' \<in> fst ` set (the_changes sample_utils (sample_api (js ''S1'')))
   \<and> fst (main sample_utils (sample_api (js ''S1'')) sample_base) = Inr ()
   \<and> updates (snd (main sample_utils (sample_api (js ''S1'')) sample_base)) ! 2 =
        \<lparr>uid = rid (tables sample_base BILL_REPORTING_TABLE ! 2),
         ufields = [(js ''Active'', JBool False)]\<rparr>
   \<and> distinct (map rid (tables sample_base BILL_REPORTING_TABLE))
   \<and> obj_get (rfields (tables (snd (main sample_utils (sample_api (js ''S1'')) sample_base))
          BILL_REPORTING_TABLE ! 2)) (js ''Active'') = JBool False"
proof -
  have h3: "(0::nat) < 2" by simp
  have h4: "2 < length (tables sample_base BILL_REPORTING_TABLE)"
    by code_simp
  have h5: "rkey sample_utils (tables sample_base BILL_REPORTING_TABLE ! 0) = JStr (js ''i2'')"
    by code_simp
  have h6: "rkey sample_utils (tables sample_base BILL_REPORTING_TABLE ! 2) = JStr (js ''i2'')"
    by code_simp
  have h7: "\<forall>r \<in> set (take 0 (tables sample_base BILL_REPORTING_TABLE)).
      rkey sample_utils r \<noteq> JStr (js ''i2'')"
    by simp
  have h8: "js ''i2'' \<in> fst ` set (the_changes sample_utils (sample_api (js ''S1'')))"
    by (simp add: sample_keys)
  note c = duplicate_key_rows [OF sample_never_fails sample_ledger_ok h3 h4 h5 h6 h7 h8]
  show ?thesis
    using sample_never_fails sample_ledger_ok sample_rids h3 h4 h5 h6 h8 c by simp
qed

section \<open>Line items of the active ledger fetch\<close>

lemma stale_never_fails: "never_fails stale_base"
  by (simp add: never_fails_def stale_base_def)

lemma stale_rows:
  "tables stale_base BILL_REPORTING_TABLE =
     [\<lparr>rid = js ''recA'',
       rfields = [(primaryBillComId sample_utils, JStr (js ''i1'')),
                  (js ''Vendor City'', JStr (js ''Oldtown''))]\<rparr>]"
  by (simp add: stale_base_def BILL_REPORTING_TABLE_def primaryBillComId_def
      billComIdFieldName_def sample_utils_def js_def)

lemma item_fields_city:
  "obj_get (item_fields u coa cust b docs sm it iv) (js ''Vendor City'')
     = obj_get iv (js ''city'')"
  by (simp add: item_fields_def obj_get_literal primaryBillComId_def
      bcid_neq billComIdFieldName_neq_suffix billComIdFieldName_neq_suffix' js_Cons js_Nil)




section \<open>Running the reconciliation twice\<close>

text \<open>
  C3, as the specification states it, fails. The document links of a bill carry the
  session id of the run that wrote them. With the ledger data unchanged (one bill of one
  page with one line item) and a second login that yields another session id, the update
  that the second run stages for the row of that line item carries
  \<open>Supporting Documents\<close> links that differ from those stored by the first run.
\<close>

theorem new_session_counterexample:
  "uid (updates (snd (main sample_utils (one_page_api (js ''S2''))
          (base.truncate (snd (main sample_utils (one_page_api (js ''S1'')) empty_base))))) ! 0)
     = rid (tables (snd (main sample_utils (one_page_api (js ''S1'')) empty_base))
          BILL_REPORTING_TABLE ! 0)
   \<and> obj_get (sent (ufields (updates (snd (main sample_utils (one_page_api (js ''S2''))
          (base.truncate (snd (main sample_utils (one_page_api (js ''S1'')) empty_base))))) ! 0)))
         (js ''Supporting Documents'')
     \<noteq> obj_get (rfields (tables (snd (main sample_utils (one_page_api (js ''S1'')) empty_base))
          BILL_REPORTING_TABLE ! 0)) (js ''Supporting Documents'')"
proof -
  define u where "u = sample_utils"
  define fs1 where
    "fs1 = item_fields u [] [] one_bill (docs_of (js ''S1'') (js ''b1'') 1) None one_item []"
  define fs2 where
    "fs2 = item_fields u [] [] one_bill (docs_of (js ''S2'') (js ''b1'') 1) None one_item []"
  define row where
    "row = \<lparr>rid = fresh_id empty_base [],
            rfields = sent (AList.update (primaryBillComId u) (JStr (js ''i1'')) fs1)\<rparr>"
  define s1 where "s1 = snd (main u (one_page_api (js ''S1'')) empty_base)"
  define s2 where "s2 = snd (main u (one_page_api (js ''S2'')) (base.truncate s1))"
  have d1: "distinct (map fst fs1)" and d2: "distinct (map fst fs2)"
    by (simp_all add: fs1_def fs2_def item_fields_def distinct_obj_literal)
  have t0: "tables empty_base BILL_REPORTING_TABLE = []"
    by (simp add: empty_base_def)
  have t1: "tables s1 BILL_REPORTING_TABLE = [row]"
    unfolding s1_def
    by (simp add: main_run [OF empty_base_never_fails one_page_changes] t0 base.extend_def
        remaining_def creates_of_def upd_rows_def append_rows_def row_def fs1_def)
  have nf2: "never_fails (base.truncate s1)"
    and t2: "tables (base.truncate s1) = tables s1"
    unfolding s1_def
    by (rule second_base [OF empty_base_never_fails one_page_ledger_ok])+
  have k: "rkey u row = JStr (js ''i1'')"
    by (simp add: rkey_def get_def row_def obj_get_sent_created)
  have "updates s2 = staged u (the_changes u (one_page_api (js ''S2''))) [row]"
    unfolding s2_def using main_final(2) [OF nf2 one_page_ledger_ok] by (simp add: t2 t1)
  then have ups: "updates s2 = [\<lparr>uid = rid row, ufields = fs2\<rparr>]"
    by (simp add: the_changes_def one_page_changes k fs2_def)
  have docs1: "docs_of (js ''S1'') (js ''b1'') 1 \<noteq> JUndefined"
    and docs2: "docs_of (js ''S2'') (js ''b1'') 1 \<noteq> JUndefined"
    by (simp_all add: docs_of_def)
  have "js ''Supporting Documents'' \<noteq> primaryBillComId u"
    by (simp add: primaryBillComId_def bcid_neq js_def)
  then have "obj_get (AList.update (primaryBillComId u) (JStr (js ''i1'')) fs1)
      (js ''Supporting Documents'') = docs_of (js ''S1'') (js ''b1'') 1"
    by (simp add: obj_get_update fs1_def item_fields_docs)
  then have "map_of (AList.update (primaryBillComId u) (JStr (js ''i1'')) fs1)
      (js ''Supporting Documents'') = Some (docs_of (js ''S1'') (js ''b1'') 1)"
    using docs1 by (rule obj_get_defined)
  then have "map_of (rfields row) (js ''Supporting Documents'')
      = Some (docs_of (js ''S1'') (js ''b1'') 1)"
    unfolding row_def using docs1 by (simp add: map_of_sent_Some)
  then have stored: "obj_get (rfields row) (js ''Supporting Documents'')
      = docs_of (js ''S1'') (js ''b1'') 1"
    by (simp add: obj_get_def)
  have "obj_get fs2 (js ''Supporting Documents'') = docs_of (js ''S2'') (js ''b1'') 1"
    by (simp add: fs2_def item_fields_docs)
  then have carried: "obj_get (sent fs2) (js ''Supporting Documents'')
      = docs_of (js ''S2'') (js ''b1'') 1"
    using docs2 by (simp add: obj_get_def [of "sent fs2"] map_of_sent [OF d2])
  have "uid (updates s2 ! 0) = rid (tables s1 BILL_REPORTING_TABLE ! 0)
      \<and> obj_get (sent (ufields (updates s2 ! 0))) (js ''Supporting Documents'')
        \<noteq> obj_get (rfields (tables s1 BILL_REPORTING_TABLE ! 0)) (js ''Supporting Documents'')"
    using docs_differ [of "js ''b1''"] by (simp add: ups t1 stored carried)
  then show ?thesis
    unfolding s2_def s1_def u_def .
qed

text \<open>
  C3, amended. Let the ledger data be the same in both runs; the second login may yield
  another session id. The second of two successive runs completes; it stages one update
  for each row of the mirror table; every field value that an update sends, other than
  the \<open>Supporting Documents\<close> links, is the value stored in its row; the create batch is
  empty; and the requests of the second run are the \<open>select\<close> and the \<open>update\<close> requests
  that carry the staged updates, with no \<open>create\<close> request. (The record store answers
  every request, the ledger phase of the first run succeeds, and the row ids of the table
  before the first run are distinct.)
\<close>

theorem second_run_idle:
  assumes nf: "never_fails b" and ok: "ledger_ok u a"
    and d: "distinct (map rid (tables b BILL_REPORTING_TABLE))"
    and login: "primaryOrgLogin a' = Inr sid'"
    and same: "listActive a' = listActive a" "listActiveBill a' = listActiveBill a"
      "getDocumentPages a' = getDocumentPages a"
  shows "fst (main u a' (base.truncate (snd (main u a b)))) = Inr ()
    \<and> length (updates (snd (main u a' (base.truncate (snd (main u a b))))))
        = length (tables (snd (main u a b)) BILL_REPORTING_TABLE)
    \<and> (\<forall>i < length (tables (snd (main u a b)) BILL_REPORTING_TABLE).
          uid (updates (snd (main u a' (base.truncate (snd (main u a b))))) ! i)
            = rid (tables (snd (main u a b)) BILL_REPORTING_TABLE ! i)
        \<and> (\<forall>(f, v) \<in> set (sent (ufields
                  (updates (snd (main u a' (base.truncate (snd (main u a b))))) ! i))).
              f \<noteq> js ''Supporting Documents'' \<longrightarrow>
              obj_get (rfields (tables (snd (main u a b)) BILL_REPORTING_TABLE ! i)) f = v))
    \<and> creates_of u (changes (snd (main u a' (base.truncate (snd (main u a b)))))) = []
    \<and> requests (snd (main u a' (base.truncate (snd (main u a b))))) =
        requests (snd (main u a b)) @ [Select BILL_REPORTING_TABLE []]
        @ map (Update BILL_REPORTING_TABLE)
            (chunks 10 (updates (snd (main u a' (base.truncate (snd (main u a b)))))))"
proof -
  define rows where "rows = tables b BILL_REPORTING_TABLE"
  define chg where "chg = the_changes u a"
  define chg' where "chg' = the_changes u a'"
  define rest where "rest = remaining u chg rows"
  define rows1 where "rows1 = upd_rows (staged u chg rows) rows"
  define b2 where "b2 = base.truncate (snd (main u a b))"
  define rows2 where "rows2 = tables (snd (main u a b)) BILL_REPORTING_TABLE"
  define ups where "ups = staged u chg rows2"
  define ups2 where "ups2 = updates (snd (main u a' b2))"
  define R where "R = (\<lambda>fs1 fs2 :: fields.
      \<forall>f. f \<noteq> js ''Supporting Documents'' \<longrightarrow> obj_get fs1 f = obj_get fs2 f)"
  note bc = ledger_ok_changes [OF ok, folded chg_def]
  from build_changes_rel [OF bc login same] obtain c2 where
    bc2: "build_changes u a' = Inr c2"
    and rel0: "list_all2 (\<lambda>p q. fst p = fst q
          \<and> (\<forall>f. f \<noteq> js ''Supporting Documents'' \<longrightarrow> obj_get (snd p) f = obj_get (snd q) f))
        chg c2"
    by (elim exE conjE)
  have ok': "ledger_ok u a'" by (simp add: ledger_ok_def bc2)
  have c2: "c2 = chg'" by (simp add: chg'_def the_changes_def bc2)
  have rel: "list_all2 (\<lambda>p q. fst p = fst q \<and> R (snd p) (snd q)) chg chg'"
    using rel0 unfolding c2 R_def .
  from main_final(4) [OF nf ok]
  obtain news where fin: "rows2 = rows1 @ news"
    and news: "map rfields news = map sent (creates_of u rest)"
    unfolding rows2_def rows1_def rest_def chg_def rows_def by (elim exE conjE)
  have nf2: "never_fails b2" and t2: "tables b2 BILL_REPORTING_TABLE = rows2"
    and r2: "requests b2 = requests (snd (main u a b))"
    using second_base [OF nf ok] by (simp_all add: b2_def rows2_def)
  have d': "distinct (map rid rows)" using d by (simp add: rows_def)
  have good: "\<And>k fs. map_of chg k = Some fs \<Longrightarrow> obj_get fs (primaryBillComId u) = JStr k"
    using build_changes_entry [OF bc] by blast
  have drest: "distinct (map fst rest)"
    unfolding rest_def by (rule distinct_remaining [OF build_changes_distinct [OF bc]])
  have keys1: "map (rkey u) rows1 = map (rkey u) rows"
    unfolding rows1_def by (rule rkey_upd_rows [OF d' good])
  have keys2: "map (rkey u) news = map (JStr \<circ> fst) rest"
    by (rule rkey_created [OF news])
  have rids1: "map rid rows1 = map rid rows"
    unfolding rows1_def by (rule map_rid_upd_rows)
  have len1: "length rows1 = length rows" by (simp add: rows1_def)
  have len_news: "length news = length rest"
    using arg_cong [OF keys2, of length] by simp
  have st1: "staged u chg rows1 = staged u chg rows"
    by (rule staged_cong [OF keys1 rids1])
  have rem1: "remaining u chg rows1 = rest"
    unfolding rest_def by (rule remaining_cong [OF keys1])
  have created: "map ufields (staged u rest news) = map snd rest"
    and rem2: "remaining u rest news = []"
    using staged_created [OF drest keys2] by simp_all
  have ups: "ups = staged u chg rows @ staged u rest news"
    by (simp add: ups_def fin staged_append st1 rem1)
  have rem: "remaining u chg rows2 = []"
    by (simp add: fin remaining_append rem1 rem2)
  have ups2_staged: "ups2 = staged u chg' rows2"
    unfolding ups2_def chg'_def using main_final(2) [OF nf2 ok'] t2 by simp
  have Rrefl: "R [(js ''Active'', JBool False)] [(js ''Active'', JBool False)]"
    by (simp add: R_def)
  note sr = staged_rel [OF rel Rrefl, of u rows2]
  have rel_ups: "list_all2 (\<lambda>x y. R (ufields x) (ufields y)) ups ups2"
    using sr unfolding ups_def ups2_staged by (rule conjunct1)
  have "list_all2 (\<lambda>p q. fst p = fst q \<and> R (snd p) (snd q))
      (remaining u chg rows2) (remaining u chg' rows2)"
    using sr by (rule conjunct2)
  then have rem': "remaining u chg' rows2 = []"
    by (simp add: rem)
  have "changes (snd (main u a' b2)) = remaining u chg' rows2"
    unfolding chg'_def using main_final(3) [OF nf2 ok'] t2 by simp
  then have chg2: "changes (snd (main u a' b2)) = []"
    by (simp add: rem')
  have uids: "map uid ups2 = map rid rows2"
    unfolding ups2_staged by (rule map_uid_staged)
  have len2: "length ups2 = length rows2"
    using arg_cong [OF uids, of length] by simp
  have good_rest: "obj_get fs (primaryBillComId u) = JStr k" if "(k, fs) \<in> set rest" for k fs
  proof -
    have "map_of rest k = Some fs"
      using drest that by (rule map_of_is_SomeI)
    then have "map_of chg k = Some fs"
      by (simp add: rest_def map_of_remaining split: if_splits)
    then show ?thesis by (rule good)
  qed
  have stored: "obj_get (rfields (rows2 ! i)) f = v"
    if i: "i < length rows2" and f: "obj_get (ufields (ups ! i)) f = v" and v: "v \<noteq> JUndefined"
    for i f v
  proof (cases "i < length rows")
    case True
    then have "ups ! i = staged u chg rows ! i" and "rows2 ! i = rows1 ! i"
      by (simp_all add: ups fin nth_append len1)
    then show ?thesis
      using agree_existing [OF d' True _ v, of u chg f] f by (simp add: rows1_def)
  next
    case False
    define j where "j = i - length rows"
    have j: "j < length rest"
      using False i by (simp add: j_def fin len1 len_news)
    have "ups ! i = staged u rest news ! j" and r2: "rows2 ! i = news ! j"
      using False by (simp_all add: ups fin nth_append len1 j_def)
    moreover have "ufields (staged u rest news ! j) = snd (rest ! j)"
      using arg_cong [OF created, of "\<lambda>l. l ! j"] j len_news by simp
    ultimately have "ufields (ups ! i) = snd (rest ! j)" by simp
    with f have "obj_get (snd (rest ! j)) f = v" by simp
    from agree_created [OF news good_rest j this v] show ?thesis
      by (simp add: r2)
  qed
  have dfields: "\<And>k fs. map_of chg' k = Some fs \<Longrightarrow> distinct (map fst fs)"
    using build_changes_distinct_fields [OF bc2] unfolding c2 .
  have agree: "uid (ups2 ! i) = rid (rows2 ! i)
      \<and> (\<forall>(f, v) \<in> set (sent (ufields (ups2 ! i))).
            f \<noteq> js ''Supporting Documents'' \<longrightarrow> obj_get (rfields (rows2 ! i)) f = v)"
    if i: "i < length rows2" for i
  proof -
    have u: "uid (ups2 ! i) = rid (rows2 ! i)"
      using arg_cong [OF uids, of "\<lambda>l. l ! i"] i len2 by simp
    have di: "distinct (map fst (ufields (ups2 ! i)))"
      unfolding ups2_staged by (rule staged_fields_distinct [OF dfields i])
    have Ri: "R (ufields (ups ! i)) (ufields (ups2 ! i))"
      using list_all2_nthD2 [OF rel_ups, of i] i len2 by simp
    have "obj_get (rfields (rows2 ! i)) f = v"
      if m: "(f, v) \<in> set (sent (ufields (ups2 ! i)))"
        and f: "f \<noteq> js ''Supporting Documents''" for f v
    proof -
      from sent_member [OF di m] have g: "obj_get (ufields (ups2 ! i)) f = v"
        and v: "v \<noteq> JUndefined" by simp_all
      have "obj_get (ufields (ups ! i)) f = v"
        using Ri f g by (simp add: R_def)
      then show ?thesis using v by (rule stored [OF i])
    qed
    with u show ?thesis by blast
  qed
  have "fst (main u a' b2) = Inr ()"
    by (rule main_final(1) [OF nf2 ok'])
  moreover have "creates_of u (changes (snd (main u a' b2))) = []"
    by (simp add: chg2 creates_of_def)
  moreover have "requests (snd (main u a' b2)) =
      requests (snd (main u a b)) @ [Select BILL_REPORTING_TABLE []]
      @ map (Update BILL_REPORTING_TABLE) (chunks 10 ups2)"
  proof -
    have "creates_of u (remaining u chg' rows2) = []"
      by (simp add: rem' creates_of_def)
    then show ?thesis
      using main_final(5) [OF nf2 ok']
      by (simp add: r2 t2 ups2_staged chg'_def [symmetric] chunks_Nil)
  qed
  ultimately show ?thesis
    using len2 agree unfolding ups2_def rows2_def b2_def by blast
qed

theorem second_run_idle_witness:
  "never_fails sample_base
   \<and> ledger_ok sample_utils (sample_api (js ''S1''))
   \<and> distinct (map rid (tables sample_base BILL_REPORTING_TABLE))
   \<and> primaryOrgLogin (sample_api (js ''S2'')) = Inr (js ''S2'')
   \<and> listActive (sample_api (js ''S2'')) = listActive (sample_api (js ''S1''))
   \<and> listActiveBill (sample_api (js ''S2'')) = listActiveBill (sample_api (js ''S1''))
   \<and> getDocumentPages (sample_api (js ''S2'')) = getDocumentPages (sample_api (js ''S1''))
   \<and> fst (main sample_utils (sample_api (js ''S2''))
          (base.truncate (snd (main sample_utils (sample_api (js ''S1'')) sample_base)))) = Inr ()
   \<and> creates_of sample_utils (changes (snd (main sample_utils (sample_api (js ''S2''))
          (base.truncate (snd (main sample_utils (sample_api (js ''S1'')) sample_base)))))) = []"
proof -
  have h4: "primaryOrgLogin (sample_api (js ''S2'')) = Inr (js ''S2'')"
    and h5: "listActive (sample_api (js ''S2'')) = listActive (sample_api (js ''S1''))"
    and h6: "listActiveBill (sample_api (js ''S2'')) = listActiveBill (sample_api (js ''S1''))"
    and h7: "getDocumentPages (sample_api (js ''S2''))
        = getDocumentPages (sample_api (js ''S1''))"
    by (simp_all add: sample_api_def)
  note c = second_run_idle [OF sample_never_fails sample_ledger_ok sample_rids h4 h5 h6 h7]
  show ?thesis
    using sample_never_fails sample_ledger_ok [of "js ''S1''"] sample_rids h4 h5 h6 h7 c
    by blast
qed

section \<open>Failures of the record store\<close>

text \<open>
  C8. For each operation of the client (\<open>select\<close> and \<open>select2\<close>, \<open>update\<close>, \<open>create\<close>,
  \<open>find\<close>) on any table: when the underlying call of the Airtable library is rejected
  with \<open>err\<close>, the operation is rejected with one new \<open>Error\<close> whose message is
  \<open>Error <verb>ing records in Airtable Table <table>: <err>\<close>, the verb being that of the
  operation.
\<close>

theorem store_failure_wrapped:
  "(airtable_select_all table view b = (Inl err, b') \<longrightarrow>
      select table view func sch b =
        (Inl (new_Error (js ''Error selecting records in Airtable Table '' @ table @
                          js '': '' @ err_string err)), b'))
   \<and> (airtable_select_all table view b = (Inl err, b') \<longrightarrow>
      select2 table view b =
        (Inl (new_Error (js ''Error selecting records in Airtable Table '' @ table @
                          js '': '' @ err_string err)), b'))
   \<and> (batch (airtable_update table) us b = (Inl err, b') \<longrightarrow>
      update table us b =
        (Inl (new_Error (js ''Error updating records in Airtable Table '' @ table @
                          js '': '' @ err_string err)), b'))
   \<and> (batch (airtable_create table) cs b = (Inl err, b') \<longrightarrow>
      create table cs b =
        (Inl (new_Error (js ''Error creating records in Airtable Table '' @ table @
                          js '': '' @ err_string err)), b'))
   \<and> (airtable_find table i b = (Inl err, b') \<longrightarrow>
      find_rec table i func' b =
        (Inl (new_Error (js ''Error finding records in Airtable Table '' @ table @
                          js '': '' @ err_string err)), b'))"
  by (simp add: select_def select2_def update_def create_def find_rec_def catchError_def js_def)

theorem store_failure_wrapped_witness:
  "airtable_select_all BILL_REPORTING_TABLE [] down_base
     = (Inl (Rejected (js ''503'')), down_base\<lparr>requests := [Select BILL_REPORTING_TABLE []]\<rparr>)
   \<and> select BILL_REPORTING_TABLE [] (\<lambda>r s. (Inr (Settled (Inr ())), s)) [] down_base
     = (Inl (new_Error (js ''Error selecting records in Airtable Table '' @ BILL_REPORTING_TABLE @
                       js '': '' @ err_string (Rejected (js ''503'')))),
        down_base\<lparr>requests := [Select BILL_REPORTING_TABLE []]\<rparr>)
   \<and> batch (airtable_update BILL_REPORTING_TABLE) [\<lparr>uid = js ''recA'', ufields = []\<rparr>] down_base
     = (Inl (Rejected (js ''503'')),
        down_base\<lparr>requests :=
          [Update BILL_REPORTING_TABLE [\<lparr>uid = js ''recA'', ufields = []\<rparr>]]\<rparr>)
   \<and> update BILL_REPORTING_TABLE [\<lparr>uid = js ''recA'', ufields = []\<rparr>] down_base
     = (Inl (new_Error (js ''Error updating records in Airtable Table '' @ BILL_REPORTING_TABLE @
                       js '': '' @ err_string (Rejected (js ''503'')))),
        down_base\<lparr>requests :=
          [Update BILL_REPORTING_TABLE [\<lparr>uid = js ''recA'', ufields = []\<rparr>]]\<rparr>)
   \<and> batch (airtable_create BILL_REPORTING_TABLE) [[]] down_base
     = (Inl (Rejected (js ''503'')), down_base\<lparr>requests := [Create BILL_REPORTING_TABLE [[]]]\<rparr>)
   \<and> create BILL_REPORTING_TABLE [[]] down_base
     = (Inl (new_Error (js ''Error creating records in Airtable Table '' @ BILL_REPORTING_TABLE @
                       js '': '' @ err_string (Rejected (js ''503'')))),
        down_base\<lparr>requests := [Create BILL_REPORTING_TABLE [[]]]\<rparr>)
   \<and> airtable_find BILL_REPORTING_TABLE (js ''recA'') down_base
     = (Inl (Rejected (js ''503'')),
        down_base\<lparr>requests := [Find BILL_REPORTING_TABLE (js ''recA'')]\<rparr>)
   \<and> find_rec BILL_REPORTING_TABLE (js ''recA'') (\<lambda>r s. (Inr (), s)) down_base
     = (Inl (new_Error (js ''Error finding records in Airtable Table '' @ BILL_REPORTING_TABLE @
                       js '': '' @ err_string (Rejected (js ''503'')))),
        down_base\<lparr>requests := [Find BILL_REPORTING_TABLE (js ''recA'')]\<rparr>)"
proof -
  note o = down_base_outage
  note c = down_base_requests
  have h1: "airtable_select_all BILL_REPORTING_TABLE [] down_base
      = (Inl (Rejected (js ''503'')),
         down_base\<lparr>requests := [Select BILL_REPORTING_TABLE []]\<rparr>)"
    by (simp add: airtable_select_all_def first_request_rejected [OF o] c)
  have h2: "batch (airtable_update BILL_REPORTING_TABLE) [\<lparr>uid = js ''recA'', ufields = []\<rparr>]
      down_base = (Inl (Rejected (js ''503'')),
        down_base\<lparr>requests :=
          [Update BILL_REPORTING_TABLE [\<lparr>uid = js ''recA'', ufields = []\<rparr>]]\<rparr>)"
    by (simp add: batch_def batchAsync_def chunks_single airtable_update_def
        first_request_rejected [OF o] c)
  have h3: "batch (airtable_create BILL_REPORTING_TABLE) [[]] down_base
      = (Inl (Rejected (js ''503'')),
         down_base\<lparr>requests := [Create BILL_REPORTING_TABLE [[]]]\<rparr>)"
    by (simp add: batch_def batchAsync_def chunks_single airtable_create_def
        first_request_rejected [OF o] c)
  have h4: "airtable_find BILL_REPORTING_TABLE (js ''recA'') down_base
      = (Inl (Rejected (js ''503'')),
         down_base\<lparr>requests := [Find BILL_REPORTING_TABLE (js ''recA'')]\<rparr>)"
    by (simp add: airtable_find_def first_request_rejected [OF o] c)
  note t = store_failure_wrapped [where b = down_base and table = BILL_REPORTING_TABLE
      and err = "Rejected (js ''503'')"]
  note t1 = t [where view = "[]" and func = "\<lambda>r s. (Inr (Settled (Inr ())), s)" and sch = "[]",
      THEN conjunct1, rule_format, OF h1]
  note t2 = t [THEN conjunct2, THEN conjunct2, THEN conjunct1, rule_format, OF h2]
  note t3 = t [THEN conjunct2, THEN conjunct2, THEN conjunct2, THEN conjunct1, rule_format, OF h3]
  note t4 = t [where func' = "\<lambda>r s. (Inr (), s)",
      THEN conjunct2, THEN conjunct2, THEN conjunct2, THEN conjunct2, rule_format, OF h4]
  show ?thesis
    using h1 h2 h3 h4 t1 t2 t3 t4 by simp
qed

section \<open>Merchant fields of a line item\<close>



section \<open>Properties of the invoice id\<close>

lemma substring_length: "length (substring s a b) \<le> max a b - min a b"
  by (simp add: substring_def)

text \<open>
  C6, as the specification states it, fails: for requester \<open>Alexandria Bartholomew\<close> and
  row id \<open>recAB1234567\<close> the synthesized invoice id is not \<open>Alexandria Barth - B12\<close>
  (which has 22 characters).
\<close>

theorem invoiceId_example_counterexample:
  "invoiceId \<lparr>rid = js ''recAB1234567'',
      rfields = [(js ''Requester Name'', JStr (js ''Alexandria Bartholomew''))]\<rparr>
   \<noteq> Inr (JStr (js ''Alexandria Barth - B12''))"
  by (simp add: invoiceId_def get_def obj_get_def substring_def js_def)

text \<open>
  C6, amended: for requester \<open>Alexandria Bartholomew\<close> and row id \<open>recAB1234567\<close>, with no
  vendor-supplied invoice id, the synthesized invoice id is \<open>Alexandria Bart - AB1\<close>: the
  first 15 characters of the requester's name, \<open> - \<close>, and the 3 characters of the row id
  from offset 3. In general a synthesized id is built that way and has at most 21
  characters, and a vendor-supplied (truthy) invoice id is used instead.
\<close>

theorem invoiceId_synthesis:
  "invoiceId \<lparr>rid = js ''recAB1234567'',
      rfields = [(js ''Requester Name'', JStr (js ''Alexandria Bartholomew''))]\<rparr>
     = Inr (JStr (js ''Alexandria Bart - AB1''))
   \<and> (\<not> truthy (get req (js ''Vendor Invoice ID'')) \<longrightarrow>
        get req (js ''Requester Name'') = JStr r \<longrightarrow>
        (\<exists>s. invoiceId req = Inr (JStr s)
           \<and> s = take 15 r @ js '' - '' @ take 3 (drop 3 (rid req))
           \<and> length s \<le> 21))
   \<and> (truthy (get req (js ''Vendor Invoice ID'')) \<longrightarrow>
        invoiceId req = Inr (get req (js ''Vendor Invoice ID'')))"
proof (intro conjI impI)
  show "invoiceId \<lparr>rid = js ''recAB1234567'',
      rfields = [(js ''Requester Name'', JStr (js ''Alexandria Bartholomew''))]\<rparr>
     = Inr (JStr (js ''Alexandria Bart - AB1''))"
    by (simp add: invoiceId_def get_def obj_get_def substring_def js_def)
next
  assume v: "\<not> truthy (get req (js ''Vendor Invoice ID''))"
    and r: "get req (js ''Requester Name'') = JStr r"
  have len: "length (js '' - '') = 3" by (simp add: js_def)
  have "invoiceId req = Inr (JStr (take 15 r @ js '' - '' @ take 3 (drop 3 (rid req))))"
    using v r by (simp add: invoiceId_def Let_def substring_def)
  moreover have "length (take 15 r @ js '' - '' @ take 3 (drop 3 (rid req))) \<le> 21"
    using len by simp
  ultimately show "\<exists>s. invoiceId req = Inr (JStr s)
           \<and> s = take 15 r @ js '' - '' @ take 3 (drop 3 (rid req))
           \<and> length s \<le> 21"
    by blast
next
  assume "truthy (get req (js ''Vendor Invoice ID''))"
  then show "invoiceId req = Inr (get req (js ''Vendor Invoice ID''))"
    by (simp add: invoiceId_def Let_def)
qed

theorem invoiceId_synthesis_witness:
  "\<not> truthy (get \<lparr>rid = js ''recXY9876543'',
        rfields = [(js ''Requester Name'', JStr (js ''Bo''))]\<rparr> (js ''Vendor Invoice ID''))
   \<and> invoiceId \<lparr>rid = js ''recXY9876543'',
        rfields = [(js ''Requester Name'', JStr (js ''Bo''))]\<rparr> = Inr (JStr (js ''Bo - XY9''))
   \<and> truthy (get \<lparr>rid = js ''recXY9876543'',
        rfields = [(js ''Vendor Invoice ID'', JStr (js ''INV-7''))]\<rparr> (js ''Vendor Invoice ID''))
   \<and> invoiceId \<lparr>rid = js ''recXY9876543'',
        rfields = [(js ''Vendor Invoice ID'', JStr (js ''INV-7''))]\<rparr> = Inr (JStr (js ''INV-7''))"
  using invoiceId_synthesis [of "\<lparr>rid = js ''recXY9876543'',
        rfields = [(js ''Requester Name'', JStr (js ''Bo''))]\<rparr>" "js ''Bo''"]
    invoiceId_synthesis [of "\<lparr>rid = js ''recXY9876543'',
        rfields = [(js ''Vendor Invoice ID'', JStr (js ''INV-7''))]\<rparr>" "js ''Bo''"]
  by (simp add: get_def obj_get_def js_def)

end
